theory Spec2Isabelle
  imports Complex_Main
begin

section \<open>Characters and strings of the source language\<close>

text \<open>
  The program under study is \<^verbatim>\<open>backend/core/services/pdf_service.py\<close>, class
  \<^verbatim>\<open>QuestionExtractor\<close>. Its texts are Python \<^verbatim>\<open>str\<close> values; here a text is
  a \<^typ>\<open>string\<close>, that is a list of \<^typ>\<open>char\<close>, one \<^typ>\<open>char\<close> per code
  point, which covers the code points 0 to 255. The character tables below are the
  ones Python's \<^verbatim>\<open>re\<close> and \<^verbatim>\<open>str\<close> use on that range.
\<close>

definition ord :: "char \<Rightarrow> nat" where
  "ord c = of_char c"

definition isspace :: "char \<Rightarrow> bool" where
  \<comment> \<open>\<^verbatim>\<open>\s\<close> and \<^verbatim>\<open>str.isspace\<close>: TAB, LF, VT, FF, CR, FS, GS, RS, US, SPACE, NEL, NBSP\<close>
  "isspace c = (let n = ord c in (9 \<le> n \<and> n \<le> 13) \<or> (28 \<le> n \<and> n \<le> 32) \<or> n = 133 \<or> n = 160)"

definition isdigit :: "char \<Rightarrow> bool" where
  \<comment> \<open>\<^verbatim>\<open>\d\<close>\<close>
  "isdigit c = (let n = ord c in 48 \<le> n \<and> n \<le> 57)"

definition isword :: "char \<Rightarrow> bool" where
  \<comment> \<open>\<^verbatim>\<open>\w\<close>: alphanumeric code points and the underscore\<close>
  "isword c = (let n = ord c in
     (48 \<le> n \<and> n \<le> 57) \<or> (65 \<le> n \<and> n \<le> 90) \<or> n = 95 \<or> (97 \<le> n \<and> n \<le> 122) \<or>
     n = 170 \<or> n = 178 \<or> n = 179 \<or> n = 181 \<or> n = 185 \<or> n = 186 \<or>
     (188 \<le> n \<and> n \<le> 190) \<or> (192 \<le> n \<and> n \<le> 214) \<or> (216 \<le> n \<and> n \<le> 246) \<or> 248 \<le> n)"

definition lower :: "char \<Rightarrow> char" where
  "lower c = (let n = ord c in
     if (65 \<le> n \<and> n \<le> 90) \<or> (192 \<le> n \<and> n \<le> 222 \<and> n \<noteq> 215) then char_of (n + 32) else c)"

definition upper :: "char \<Rightarrow> char" where
  "upper c = (let n = ord c in
     if (97 \<le> n \<and> n \<le> 122) \<or> (224 \<le> n \<and> n \<le> 254 \<and> n \<noteq> 247) then char_of (n - 32) else c)"

definition newline :: char where
  "newline = CHR 0x0A"

definition strip :: "string \<Rightarrow> string" where
  \<comment> \<open>\<^verbatim>\<open>str.strip()\<close> with no argument\<close>
  "strip s = rev (dropWhile isspace (rev (dropWhile isspace s)))"

section \<open>Regular expressions: the fragment of \<^verbatim>\<open>re\<close> the program uses\<close>

datatype flag = IGNORECASE | MULTILINE | DOTALL

datatype cset_item =
    CChar char              \<comment> \<open>a literal character in a class\<close>
  | CRange char char        \<comment> \<open>\<^verbatim>\<open>a-z\<close>\<close>
  | CSpace                  \<comment> \<open>\<^verbatim>\<open>\s\<close>\<close>
  | CDigit                  \<comment> \<open>\<^verbatim>\<open>\d\<close>\<close>
  | CWord                   \<comment> \<open>\<^verbatim>\<open>\w\<close>\<close>

datatype regex =
    Eps                     \<comment> \<open>the empty pattern\<close>
  | Chr char                \<comment> \<open>a literal character\<close>
  | Dot                     \<comment> \<open>\<^verbatim>\<open>.\<close>\<close>
  | In bool "cset_item list" \<comment> \<open>\<^verbatim>\<open>[...]\<close>, or \<^verbatim>\<open>[^...]\<close> when the flag is set\<close>
  | Bol                     \<comment> \<open>\<^verbatim>\<open>^\<close>\<close>
  | Eol                     \<comment> \<open>\<^verbatim>\<open>$\<close>\<close>
  | Seq regex regex
  | Alt regex regex         \<comment> \<open>\<^verbatim>\<open>a|b\<close>\<close>
  | Star bool regex         \<comment> \<open>\<^verbatim>\<open>r*\<close> when the flag is set (greedy), \<^verbatim>\<open>r*?\<close> otherwise\<close>
  | Plus bool regex         \<comment> \<open>\<^verbatim>\<open>r+\<close> / \<^verbatim>\<open>r+?\<close>\<close>
  | Opt bool regex          \<comment> \<open>\<^verbatim>\<open>r?\<close> / \<^verbatim>\<open>r??\<close>\<close>
  | Group string regex      \<comment> \<open>\<^verbatim>\<open>(?P<name>r)\<close>\<close>
  | Look regex              \<comment> \<open>\<^verbatim>\<open>(?=r)\<close>\<close>

definition seqs :: "regex list \<Rightarrow> regex" where
  "seqs rs = foldr Seq rs Eps"

definition lit :: "string \<Rightarrow> regex" where
  "lit cs = seqs (map Chr cs)"

text \<open>
  The matcher state: the character before the current position (\<open>None\<close> at the start
  of the text), the text from the current position on, and the named groups captured so
  far, the latest first.
\<close>

datatype mstate = MState (prev: "char option") (rest: string) (caps: "(string \<times> string) list")

fun item_has :: "cset_item \<Rightarrow> char \<Rightarrow> bool" where
  "item_has (CChar a) c = (c = a)"
| "item_has (CRange a b) c = (ord a \<le> ord c \<and> ord c \<le> ord b)"
| "item_has CSpace c = isspace c"
| "item_has CDigit c = isdigit c"
| "item_has CWord c = isword c"

definition in_class :: "flag list \<Rightarrow> bool \<Rightarrow> cset_item list \<Rightarrow> char \<Rightarrow> bool" where
  "in_class fl neg items c =
     (let hit = (\<lambda>x. \<exists>i \<in> set items. item_has i x);
          h = (if IGNORECASE \<in> set fl then hit c \<or> hit (lower c) \<or> hit (upper c) else hit c)
      in if neg then \<not> h else h)"

definition chr_eq :: "flag list \<Rightarrow> char \<Rightarrow> char \<Rightarrow> bool" where
  "chr_eq fl a c = (if IGNORECASE \<in> set fl then lower a = lower c else a = c)"

definition one_char :: "(char \<Rightarrow> bool) \<Rightarrow> mstate \<Rightarrow> mstate list" where
  "one_char P s = (case rest s of [] \<Rightarrow> []
     | c # cs \<Rightarrow> if P c then [MState (Some c) cs (caps s)] else [])"

definition at_bol :: "flag list \<Rightarrow> mstate \<Rightarrow> bool" where
  "at_bol fl s = (prev s = None \<or> (MULTILINE \<in> set fl \<and> prev s = Some newline))"

definition at_eol :: "flag list \<Rightarrow> mstate \<Rightarrow> bool" where
  "at_eol fl s = (rest s = [] \<or> (if MULTILINE \<in> set fl then hd (rest s) = newline
                                    else rest s = [newline]))"

definition shorter :: "mstate \<Rightarrow> mstate \<Rightarrow> bool" where
  "shorter s' s = (length (rest s') < length (rest s))"

text \<open>
  Repetition. Every further round must consume at least one character, so the recursion
  ends with the text. The greedy form tries another round first and stopping last; the
  lazy form tries stopping first.
\<close>

function star :: "bool \<Rightarrow> (mstate \<Rightarrow> mstate list) \<Rightarrow> mstate \<Rightarrow> mstate list" where
  "star greedy f s =
     (let more = concat (map (star greedy f) (filter (\<lambda>s'. shorter s' s) (f s)))
      in if greedy then more @ [s] else s # more)"
  by pat_completeness auto
termination
  by (relation "measure (\<lambda>(g, f, s). length (rest s))") (auto simp: shorter_def)

declare star.simps [simp del]

definition consumed :: "mstate \<Rightarrow> mstate \<Rightarrow> string" where
  "consumed s s' = take (length (rest s) - length (rest s')) (rest s)"

text \<open>
  \<open>ms fl r s\<close> lists the states in which a match of \<open>r\<close> started in \<open>s\<close> can end, in
  the order in which a backtracking matcher tries them.
\<close>

primrec ms :: "flag list \<Rightarrow> regex \<Rightarrow> mstate \<Rightarrow> mstate list" where
  "ms fl Eps s = [s]"
| "ms fl (Chr a) s = one_char (chr_eq fl a) s"
| "ms fl Dot s = one_char (\<lambda>c. DOTALL \<in> set fl \<or> c \<noteq> newline) s"
| "ms fl (In neg items) s = one_char (in_class fl neg items) s"
| "ms fl Bol s = (if at_bol fl s then [s] else [])"
| "ms fl Eol s = (if at_eol fl s then [s] else [])"
| "ms fl (Seq a b) s = concat (map (ms fl b) (ms fl a s))"
| "ms fl (Alt a b) s = ms fl a s @ ms fl b s"
| "ms fl (Star greedy r) s = star greedy (ms fl r) s"
| "ms fl (Plus greedy r) s = concat (map (star greedy (ms fl r)) (ms fl r s))"
| "ms fl (Opt greedy r) s = (if greedy then ms fl r s @ [s] else s # ms fl r s)"
| "ms fl (Group name r) s =
     map (\<lambda>s'. MState (prev s') (rest s') ((name, consumed s s') # caps s')) (ms fl r s)"
| "ms fl (Look r) s =
     (case ms fl r s of [] \<Rightarrow> [] | s' # _ \<Rightarrow> [MState (prev s) (rest s) (caps s')])"

primrec group_names :: "regex \<Rightarrow> string list" where
  "group_names Eps = []"
| "group_names (Chr a) = []"
| "group_names Dot = []"
| "group_names (In neg items) = []"
| "group_names Bol = []"
| "group_names Eol = []"
| "group_names (Seq a b) = group_names a @ group_names b"
| "group_names (Alt a b) = group_names a @ group_names b"
| "group_names (Star greedy r) = group_names r"
| "group_names (Plus greedy r) = group_names r"
| "group_names (Opt greedy r) = group_names r"
| "group_names (Group name r) = name # group_names r"
| "group_names (Look r) = group_names r"

text \<open>
  The scanning loop shared by \<^verbatim>\<open>re.sub\<close> and \<^verbatim>\<open>re.finditer\<close>: at each
  position the first way to match wins; after a match the scan goes on where the match
  ended; after an empty match the same position is tried once more for a match that
  is not empty (\<open>adv\<close>); where nothing matches one character is passed over.
\<close>

datatype seg = Unmatched char | Matched mstate

function scan :: "flag list \<Rightarrow> regex \<Rightarrow> bool \<Rightarrow> mstate \<Rightarrow> seg list" where
  "scan fl r adv s =
     (case find (\<lambda>s'. \<not> adv \<or> shorter s' s) (ms fl r s) of
        Some s' \<Rightarrow>
          if shorter s' s then Matched s' # scan fl r False (MState (prev s') (rest s') [])
          else Matched s' # scan fl r True s
      | None \<Rightarrow>
          (case rest s of [] \<Rightarrow> []
           | c # cs \<Rightarrow> Unmatched c # scan fl r False (MState (Some c) cs [])))"
  by pat_completeness auto
termination
  by (relation "measures [\<lambda>(fl, r, adv, s). length (rest s), \<lambda>(fl, r, adv, s). if adv then 0 else 1]")
     (auto simp: find_Some_iff shorter_def)

declare scan.simps [simp del]

definition start :: "string \<Rightarrow> mstate" where
  "start t = MState None t []"

text \<open>A match object: the group names its pattern defines, and what they captured.\<close>

datatype match = Match (m_names: "string list") (m_caps: "(string \<times> string) list")

datatype error = IndexError | TypeError | ValueError | AttributeError

definition group :: "match \<Rightarrow> string \<Rightarrow> error + string option" where
  \<comment> \<open>\<^verbatim>\<open>match.group(name)\<close>: \<^verbatim>\<open>IndexError\<close> for a name the pattern does not define,
      \<^verbatim>\<open>None\<close> for a group that took no part in the match\<close>
  "group m name = (if name \<in> set (m_names m) then Inr (map_of (m_caps m) name)
                   else Inl IndexError)"

definition finditer :: "flag list \<Rightarrow> regex \<Rightarrow> string \<Rightarrow> match list" where
  "finditer fl r t =
     concat (map (\<lambda>g. case g of Unmatched c \<Rightarrow> [] | Matched s' \<Rightarrow> [Match (group_names r) (caps s')])
                 (scan fl r False (start t)))"

definition re_search :: "flag list \<Rightarrow> regex \<Rightarrow> string \<Rightarrow> match option" where
  "re_search fl r t = (case finditer fl r t of [] \<Rightarrow> None | m # _ \<Rightarrow> Some m)"

definition re_sub :: "flag list \<Rightarrow> regex \<Rightarrow> string \<Rightarrow> string \<Rightarrow> string" where
  \<comment> \<open>\<^verbatim>\<open>re.sub(pattern, repl, text, flags)\<close> for a replacement without group references\<close>
  "re_sub fl r repl t =
     concat (map (\<lambda>g. case g of Unmatched c \<Rightarrow> [c] | Matched s' \<Rightarrow> repl)
                 (scan fl r False (start t)))"

section \<open>The question extractor\<close>

record QuestionMatch =
  question_id :: int
  question_text :: string
  confidence :: rat

text \<open>
  The scores are Python floats. They are modelled as exact rationals: every score the
  program can compute is a product of at most three of the factors 0.5, 0.8, 1.2 and 1.1,
  and the only tests made on a score (\<^verbatim>\<open>min(confidence, 1.0)\<close> and
  \<^verbatim>\<open>confidence > 0.5\<close>) see either exactly 0.5 or 1.0, or a value that is at
  least 0.04 away from both.
\<close>

definition space :: regex where
  "space = In False [CSpace]"

definition digit :: regex where
  "digit = In False [CDigit]"

definition sep :: regex where
  \<comment> \<open>\<^verbatim>\<open>[.:\s]\<close>\<close>
  "sep = In False [CChar CHR ''.'', CChar CHR '':'', CSpace]"

definition space_or_dot :: regex where
  \<comment> \<open>\<^verbatim>\<open>[\s.]\<close>\<close>
  "space_or_dot = In False [CSpace, CChar CHR ''.'']"

definition line_start :: regex where
  \<comment> \<open>\<^verbatim>\<open>(?:^|\n)\<close>\<close>
  "line_start = Alt Bol (Chr newline)"

definition pattern_standard :: regex where
  \<comment> \<open>\<^verbatim>\<open>(?:^|\n)(?P<marker>Q|Question)[\s.]?(?P<id>\d+)[.:\s]+(?P<text>.*?)(?=(?:\n(?:Q|Question)[\s.]?\d+)|$)\<close>\<close>
  "pattern_standard = seqs
     [line_start,
      Group ''marker'' (Alt (lit ''Q'') (lit ''Question'')),
      Opt True space_or_dot,
      Group ''id'' (Plus True digit),
      Plus True sep,
      Group ''text'' (Star False Dot),
      Look (Alt (seqs [Chr newline, Alt (lit ''Q'') (lit ''Question''), Opt True space_or_dot,
                       Plus True digit])
                Eol)]"

definition pattern_numbered :: regex where
  \<comment> \<open>\<^verbatim>\<open>(?:^|\n)(?P<id>\d+)[.:\s]+(?P<text>.*?)(?=(?:\n\d+[.:\s]+)|$)\<close>\<close>
  "pattern_numbered = seqs
     [line_start,
      Group ''id'' (Plus True digit),
      Plus True sep,
      Group ''text'' (Star False Dot),
      Look (Alt (seqs [Chr newline, Plus True digit, Plus True sep]) Eol)]"

definition pattern_bracketed :: regex where
  \<comment> \<open>\<^verbatim>\<open>(?:^|\n)\[(?P<marker>Q\.?)?(?P<id>\d+)\][.:\s]+(?P<text>.*?)(?=(?:\n\[(?:Q\.?)?\d+\])|$)\<close>\<close>
  "pattern_bracketed = seqs
     [line_start,
      Chr CHR ''['',
      Opt True (Group ''marker'' (Seq (Chr CHR ''Q'') (Opt True (Chr CHR ''.'')))),
      Group ''id'' (Plus True digit),
      Chr CHR '']'',
      Plus True sep,
      Group ''text'' (Star False Dot),
      Look (Alt (seqs [Chr newline, Chr CHR ''['',
                       Opt True (Seq (Chr CHR ''Q'') (Opt True (Chr CHR ''.''))),
                       Plus True digit, Chr CHR '']''])
                Eol)]"

definition pattern_problem :: regex where
  \<comment> \<open>\<^verbatim>\<open>(?:^|\n)(?P<marker>Problem|Exercise)[\s.]?(?P<id>\d+)[.:\s]+(?P<text>.*?)(?=(?:\n(?:Problem|Exercise)[\s.]?\d+)|$)\<close>\<close>
  "pattern_problem = seqs
     [line_start,
      Group ''marker'' (Alt (lit ''Problem'') (lit ''Exercise'')),
      Opt True space_or_dot,
      Group ''id'' (Plus True digit),
      Plus True sep,
      Group ''text'' (Star False Dot),
      Look (Alt (seqs [Chr newline, Alt (lit ''Problem'') (lit ''Exercise''),
                       Opt True space_or_dot, Plus True digit])
                Eol)]"

definition PATTERNS :: "regex list" where
  "PATTERNS = [pattern_standard, pattern_numbered, pattern_bracketed, pattern_problem]"

definition NOISE_PATTERNS :: "regex list" where
  "NOISE_PATTERNS =
     [Seq (lit ''Here is the answer to the question'') (Star True Dot),
      lit ''I hope this helps!'',
      Seq (lit ''Let me know if you have any further questions'') (Star True Dot),
      Seq (lit ''In summary,'') (Star True Dot),
      Seq (lit ''The following are key points'') (Star True Dot),
      Seq (lit ''Please note that'') (Star True Dot),
      lit ''Answer in HTML format:'',
      Seq (lit ''know if you need any changes'') (Star True Dot)]"

definition unwanted :: regex where
  \<comment> \<open>\<^verbatim>\<open>[^\w\s\n.?,:;()\[\]-]\<close>\<close>
  "unwanted = In True [CWord, CSpace, CChar newline, CChar CHR ''.'', CChar CHR ''?'',
     CChar CHR '','', CChar CHR '':'', CChar CHR '';'', CChar CHR ''('', CChar CHR '')'',
     CChar CHR ''['', CChar CHR '']'', CChar CHR ''-'']"

definition clean_text :: "string \<Rightarrow> string" where
  "clean_text text =
     (let text = fold (\<lambda>pattern text. re_sub [IGNORECASE] pattern [] text) NOISE_PATTERNS text;
          text = re_sub [] (Plus True space) '' '' text;
          text = re_sub [] (seqs [Chr newline, Star True space, Chr newline]) [newline] text;
          text = re_sub [] (seqs [Chr CHR ''Q'', Star True space, Chr CHR ''.'', Star True space])
                   ''Q.'' text;
          text = re_sub [] (Seq (lit ''Question'') (Plus True space)) ''Question '' text;
          text = re_sub [] unwanted [] text
      in strip text)"

definition truthy :: "string option \<Rightarrow> bool" where
  \<comment> \<open>the truth value of a string or \<^verbatim>\<open>None\<close>\<close>
  "truthy g = (case g of None \<Rightarrow> False | Some s \<Rightarrow> s \<noteq> [])"

definition calculate_confidence :: "string \<Rightarrow> match \<Rightarrow> error + rat" where
  "calculate_confidence text m =
     (let confidence = 1;
          confidence = (if length text < 10 then confidence * (5 / 10)
                        else if length text > 500 then confidence * (8 / 10)
                        else confidence)
      in case group m ''marker'' of
           Inl e \<Rightarrow> Inl e
         | Inr marker \<Rightarrow>
             (let confidence = (if truthy marker then confidence * (12 / 10) else confidence);
                  confidence = (if CHR ''?'' \<in> set text then confidence * (11 / 10) else confidence);
                  confidence = (if re_search [] (Seq Bol (In False [CRange CHR ''A'' CHR ''Z''])) text \<noteq> None
                                then confidence else confidence)
              in Inr (min confidence 1)))"

definition digit_value :: "string \<Rightarrow> int" where
  "digit_value ds = foldl (\<lambda>n c. 10 * n + (int (ord c) - 48)) 0 ds"

definition py_int :: "string option \<Rightarrow> error + int" where
  \<comment> \<open>\<^verbatim>\<open>int(x)\<close> on what a group can hold: \<^verbatim>\<open>TypeError\<close> for \<^verbatim>\<open>None\<close>, the
      decimal value of a string of digits. The other spellings \<^verbatim>\<open>int\<close> accepts (a sign,
      white space around, underscores between digits) contain a character that is not a
      digit, which \<^verbatim>\<open>\d+\<close> never captures; they are reported as \<^verbatim>\<open>ValueError\<close>.
      Python integers are unbounded; the limit some interpreter versions put on the number
      of digits \<^verbatim>\<open>int\<close> converts is not modelled.\<close>
  "py_int x = (case x of None \<Rightarrow> Inl TypeError
     | Some ds \<Rightarrow> if ds \<noteq> [] \<and> (\<forall>c \<in> set ds. isdigit c) then Inr (digit_value ds)
                  else Inl ValueError)"

definition py_strip :: "string option \<Rightarrow> error + string" where
  \<comment> \<open>\<^verbatim>\<open>x.strip()\<close>: \<^verbatim>\<open>None\<close> has no such method\<close>
  "py_strip x = (case x of None \<Rightarrow> Inl AttributeError | Some s \<Rightarrow> Inr (strip s))"

definition match_id :: "match \<Rightarrow> error + int" where
  \<comment> \<open>\<^verbatim>\<open>int(match.group('id'))\<close>\<close>
  "match_id m = (case group m ''id'' of Inl e \<Rightarrow> Inl e | Inr g \<Rightarrow> py_int g)"

definition match_text :: "match \<Rightarrow> error + string" where
  \<comment> \<open>\<^verbatim>\<open>match.group('text').strip()\<close>\<close>
  "match_text m = (case group m ''text'' of Inl e \<Rightarrow> Inl e | Inr g \<Rightarrow> py_strip g)"

text \<open>
  The body of the inner loop of \<^verbatim>\<open>_extract_with_confidence\<close>, on the pair of
  \<^verbatim>\<open>question_matches\<close> and \<^verbatim>\<open>seen_questions\<close>.
\<close>

definition process_match ::
  "QuestionMatch list \<times> int set \<Rightarrow> match \<Rightarrow> error + QuestionMatch list \<times> int set" where
  "process_match st m =
     (case match_id m of Inl e \<Rightarrow> Inl e | Inr q_id \<Rightarrow>
      case match_text m of Inl e \<Rightarrow> Inl e | Inr q_text \<Rightarrow>
      if q_id \<in> snd st then Inr st
      else case calculate_confidence q_text m of Inl e \<Rightarrow> Inl e | Inr c \<Rightarrow>
        if c > 5 / 10
        then Inr (fst st @ [\<lparr>question_id = q_id, question_text = q_text, confidence = c\<rparr>],
                  insert q_id (snd st))
        else Inr st)"

fun for_matches ::
  "QuestionMatch list \<times> int set \<Rightarrow> match list \<Rightarrow> error + QuestionMatch list \<times> int set" where
  "for_matches st [] = Inr st"
| "for_matches st (m # ms') =
     (case process_match st m of Inl e \<Rightarrow> Inl e | Inr st' \<Rightarrow> for_matches st' ms')"

fun for_patterns ::
  "string \<Rightarrow> QuestionMatch list \<times> int set \<Rightarrow> regex list \<Rightarrow> error + QuestionMatch list \<times> int set" where
  "for_patterns text st [] = Inr st"
| "for_patterns text st (pattern # ps) =
     (case for_matches st (finditer [MULTILINE, DOTALL] pattern text) of
        Inl e \<Rightarrow> Inl e
      | Inr st' \<Rightarrow> for_patterns text st' ps)"

definition extract_with_confidence :: "string \<Rightarrow> error + QuestionMatch list" where
  "extract_with_confidence text =
     (case for_patterns text ([], {}) PATTERNS of
        Inl e \<Rightarrow> Inl e
      | Inr st \<Rightarrow> Inr (sort_key question_id (fst st)))"

definition final_clean :: "string \<Rightarrow> string" where
  "final_clean text =
     (let text = re_sub [] (Plus True space) '' '' text;
          text = strip text
      in if text \<noteq> [] \<and> \<not> (last text = CHR ''.'' \<or> last text = CHR ''?'')
         then text @ ''.'' else text)"

text \<open>
  A result dictionary \<^verbatim>\<open>{'question_id': ..., 'question': ...}\<close>, as a record of its two
  keys.
\<close>

record question_dict =
  dict_question_id :: int
  dict_question :: string

fun post_process_questions :: "QuestionMatch list \<Rightarrow> question_dict list" where
  "post_process_questions [] = []"
| "post_process_questions (m # matches) =
     (let cleaned_text = final_clean (question_text m)
      in if cleaned_text \<noteq> []
         then \<lparr>dict_question_id = question_id m, dict_question = cleaned_text\<rparr>
                # post_process_questions matches
         else post_process_questions matches)"

definition pipeline :: "string \<Rightarrow> error + question_dict list" where
  \<comment> \<open>\<^verbatim>\<open>extract_questions\<close> from the recovered text on: the three stages after
      \<^verbatim>\<open>_extract_text_blocks\<close>\<close>
  "pipeline text =
     (case extract_with_confidence (clean_text text) of
        Inl e \<Rightarrow> Inl e
      | Inr questions \<Rightarrow> Inr (post_process_questions questions))"

section \<open>Notions used in the proofs\<close>

text \<open>
  A match can only move forward: \<open>adv s s'\<close> says that \<open>s'\<close> is reached from \<open>s\<close> by
  consuming a prefix of the remaining text, and that \<open>s'\<close> remembers the last character
  consumed.
\<close>

definition adv :: "mstate \<Rightarrow> mstate \<Rightarrow> bool" where
  "adv s s' = (\<exists>u. rest s = u @ rest s' \<and> prev s' = (if u = [] then prev s else Some (last u)))"

text \<open>
  The scanning loop read as \<^verbatim>\<open>re.sub\<close> and as \<^verbatim>\<open>re.finditer\<close>, started in any state.
\<close>

definition sub_from :: "flag list \<Rightarrow> regex \<Rightarrow> string \<Rightarrow> bool \<Rightarrow> mstate \<Rightarrow> string" where
  "sub_from fl r repl a s =
     concat (map (\<lambda>g. case g of Unmatched c \<Rightarrow> [c] | Matched s' \<Rightarrow> repl) (scan fl r a s))"

definition matches_from :: "flag list \<Rightarrow> regex \<Rightarrow> bool \<Rightarrow> mstate \<Rightarrow> mstate list" where
  "matches_from fl r a s =
     concat (map (\<lambda>g. case g of Unmatched c \<Rightarrow> [] | Matched s' \<Rightarrow> [s']) (scan fl r a s))"

text \<open>
  What \<^verbatim>\<open>re.sub\<close> computes for a pattern \<^verbatim>\<open>[...]+\<close>: every maximal run of characters of
  the class is replaced by one copy of the replacement.
\<close>

function squeeze :: "(char \<Rightarrow> bool) \<Rightarrow> string \<Rightarrow> string \<Rightarrow> string" where
  "squeeze P repl [] = []"
| "squeeze P repl (c # cs) =
     (if P c then repl @ squeeze P repl (dropWhile P cs) else c # squeeze P repl cs)"
  by pat_completeness auto
termination
  by (relation "measure (\<lambda>(P, repl, cs). length cs)")
     (auto simp: length_dropWhile_le less_Suc_eq_le)

text \<open>
  Every match of \<open>r\<close> begins by consuming a character that satisfies \<open>P\<close>.
\<close>

definition first_char :: "flag list \<Rightarrow> regex \<Rightarrow> (char \<Rightarrow> bool) \<Rightarrow> bool" where
  "first_char fl r P =
     (\<forall>s s'. s' \<in> set (ms fl r s) \<longrightarrow>
        (\<exists>c cs. rest s = c # cs \<and> P c \<and> length (rest s') \<le> length cs))"

text \<open>
  The candidate \<open>q\<close> is what the loop body appends for the match \<open>m\<close>; \<open>rejected m\<close> says that
  the score of \<open>m\<close> is at most 0.5; \<open>all_matches\<close> lists the matches in the order the two
  nested loops visit them; \<open>good\<close> is the loop invariant linking the two accumulators.
\<close>

definition accepts :: "match \<Rightarrow> QuestionMatch \<Rightarrow> bool" where
  "accepts m q =
     (match_id m = Inr (question_id q) \<and> match_text m = Inr (question_text q) \<and>
      calculate_confidence (question_text q) m = Inr (confidence q) \<and> confidence q > 5 / 10)"

definition rejected :: "match \<Rightarrow> bool" where
  "rejected m = (\<exists>t c. match_text m = Inr t \<and> calculate_confidence t m = Inr c \<and> c \<le> 5 / 10)"

definition all_matches :: "string \<Rightarrow> match list" where
  "all_matches text = concat (map (\<lambda>pattern. finditer [MULTILINE, DOTALL] pattern text) PATTERNS)"

definition good :: "QuestionMatch list \<times> int set \<Rightarrow> bool" where
  "good st = (distinct (map question_id (fst st)) \<and> question_id ` set (fst st) = snd st)"

section \<open>Properties of the matcher\<close>

lemma adv_refl: "adv s s"
  by (simp add: adv_def)

lemma adv_trans:
  assumes "adv s s'" "adv s' s''"
  shows "adv s s''"
proof -
  from assms(1) obtain u where u: "rest s = u @ rest s'" "prev s' = (if u = [] then prev s else Some (last u))"
    unfolding adv_def by blast
  from assms(2) obtain v where v: "rest s' = v @ rest s''" "prev s'' = (if v = [] then prev s' else Some (last v))"
    unfolding adv_def by blast
  have "rest s = (u @ v) @ rest s''" using u(1) v(1) by simp
  moreover have "prev s'' = (if u @ v = [] then prev s else Some (last (u @ v)))"
    using u(2) v(2) by (cases "v = []") simp_all
  ultimately show ?thesis unfolding adv_def by blast
qed

lemma adv_one_char:
  assumes "s' \<in> set (one_char P s)"
  shows "adv s s'"
proof (cases "rest s")
  case Nil
  with assms show ?thesis by (simp add: one_char_def)
next
  case (Cons c cs)
  with assms have "s' = MState (Some c) cs (caps s)"
    by (simp add: one_char_def split: if_splits)
  with Cons have "rest s = [c] @ rest s'" "prev s' = Some (last [c])" by simp_all
  then show ?thesis unfolding adv_def by (intro exI [of _ "[c]"]) simp
qed

lemma adv_star:
  "(\<forall>s s'. s' \<in> set (f s) \<longrightarrow> adv s s') \<Longrightarrow> s' \<in> set (star g f s) \<Longrightarrow> adv s s'"
proof (induction g f s arbitrary: s' rule: star.induct)
  case (1 g f s)
  from "1.prems"(2) have "s' = s \<or> (\<exists>s1 \<in> set (f s). shorter s1 s \<and> s' \<in> set (star g f s1))"
    by (subst (asm) star.simps) (auto simp: Let_def split: if_splits)
  then show ?case
  proof
    assume "s' = s" then show ?thesis by (simp add: adv_refl)
  next
    assume "\<exists>s1 \<in> set (f s). shorter s1 s \<and> s' \<in> set (star g f s1)"
    then obtain s1 where s1: "s1 \<in> set (f s)" "shorter s1 s" "s' \<in> set (star g f s1)" by blast
    from "1.IH" [of s1 s'] s1 "1.prems"(1) have "adv s1 s'" by simp
    moreover from "1.prems"(1) s1(1) have "adv s s1" by blast
    ultimately show ?thesis using adv_trans by blast
  qed
qed

lemma adv_ms: "s' \<in> set (ms fl r s) \<Longrightarrow> adv s s'"
proof (induction r arbitrary: s s')
  case (Seq a b)
  from Seq.prems obtain s1 where "s1 \<in> set (ms fl a s)" "s' \<in> set (ms fl b s1)" by auto
  then show ?case using Seq.IH adv_trans by blast
next
  case (Alt a b)
  from Alt.prems have "s' \<in> set (ms fl a s) \<or> s' \<in> set (ms fl b s)" by simp
  then show ?case using Alt.IH by blast
next
  case (Star g r)
  from Star.prems have "s' \<in> set (star g (ms fl r) s)" by simp
  moreover have "\<forall>s s'. s' \<in> set (ms fl r s) \<longrightarrow> adv s s'" using Star.IH by blast
  ultimately show ?case using adv_star by blast
next
  case (Plus g r)
  from Plus.prems obtain s1 where s1: "s1 \<in> set (ms fl r s)" "s' \<in> set (star g (ms fl r) s1)" by auto
  have "\<forall>s s'. s' \<in> set (ms fl r s) \<longrightarrow> adv s s'" using Plus.IH by blast
  with s1(2) have "adv s1 s'" using adv_star by blast
  moreover from s1(1) have "adv s s1" by (rule Plus.IH)
  ultimately show ?case using adv_trans by blast
next
  case (Opt g r)
  from Opt.prems have "s' = s \<or> s' \<in> set (ms fl r s)" by (auto split: if_splits)
  then show ?case using Opt.IH adv_refl by blast
next
  case (Group n r)
  from Group.prems obtain s1 where s1: "s1 \<in> set (ms fl r s)" "rest s' = rest s1" "prev s' = prev s1" by auto
  from s1(1) have "adv s s1" by (rule Group.IH)
  with s1(2,3) show ?case by (simp add: adv_def)
next
  case (Look r)
  from Look.prems obtain c where "s' = MState (prev s) (rest s) c" by (auto split: list.splits)
  then show ?case by (simp add: adv_def)
next
  case Eps
  then show ?case by (simp add: adv_refl)
next
  case (Chr a)
  from Chr.prems have "s' \<in> set (one_char (chr_eq fl a) s)" by simp
  then show ?case by (rule adv_one_char)
next
  case Dot
  from Dot.prems have "s' \<in> set (one_char (\<lambda>c. DOTALL \<in> set fl \<or> c \<noteq> newline) s)" by simp
  then show ?case by (rule adv_one_char)
next
  case (In neg items)
  from In.prems have "s' \<in> set (one_char (in_class fl neg items) s)" by simp
  then show ?case by (rule adv_one_char)
next
  case Bol
  then show ?case by (simp add: adv_refl split: if_splits)
next
  case Eol
  then show ?case by (simp add: adv_refl split: if_splits)
qed

lemma re_sub_sub_from: "re_sub fl r repl t = sub_from fl r repl False (start t)"
  by (simp add: re_sub_def sub_from_def)

lemma adv_length: "adv s s' \<Longrightarrow> length (rest s') \<le> length (rest s)"
  unfolding adv_def by auto

lemma adv_set: "adv s s' \<Longrightarrow> set (rest s') \<subseteq> set (rest s)"
  unfolding adv_def by auto

lemma sub_from_None:
  assumes "find (\<lambda>s'. \<not> a \<or> shorter s' s) (ms fl r s) = None"
  shows "sub_from fl r repl a s =
           (case rest s of [] \<Rightarrow> [] | c # cs \<Rightarrow> c # sub_from fl r repl False (MState (Some c) cs []))"
  unfolding sub_from_def using assms
  by (subst scan.simps) (simp split: list.splits)

lemma sub_from_Some:
  assumes "find (\<lambda>s'. \<not> a \<or> shorter s' s) (ms fl r s) = Some s'"
  shows "sub_from fl r repl a s =
           (if shorter s' s then repl @ sub_from fl r repl False (MState (prev s') (rest s') [])
            else repl @ sub_from fl r repl True s)"
  unfolding sub_from_def using assms
  by (subst scan.simps) simp

lemma matches_from_None:
  assumes "find (\<lambda>s'. \<not> a \<or> shorter s' s) (ms fl r s) = None"
  shows "matches_from fl r a s =
           (case rest s of [] \<Rightarrow> [] | c # cs \<Rightarrow> matches_from fl r False (MState (Some c) cs []))"
  unfolding matches_from_def using assms
  by (subst scan.simps) (simp split: list.splits)

lemma matches_from_Some:
  assumes "find (\<lambda>s'. \<not> a \<or> shorter s' s) (ms fl r s) = Some s'"
  shows "matches_from fl r a s =
           (if shorter s' s then s' # matches_from fl r False (MState (prev s') (rest s') [])
            else s' # matches_from fl r True s)"
  unfolding matches_from_def using assms
  by (subst scan.simps) simp

lemma find_SomeD: "find P xs = Some x \<Longrightarrow> x \<in> set xs \<and> P x"
  by (induction xs) (auto split: if_splits)

lemma sub_from_chars: "set (sub_from fl r repl a s) \<subseteq> set (rest s) \<union> set repl"
proof (induction fl r a s rule: scan.induct)
  case (1 fl r a s)
  show ?case
  proof (cases "find (\<lambda>s'. \<not> a \<or> shorter s' s) (ms fl r s)")
    case None
    show ?thesis
    proof (cases "rest s")
      case Nil
      then show ?thesis by (simp add: sub_from_None [OF None])
    next
      case (Cons c cs)
      from "1.IH"(1) [OF None Cons]
      have "set (sub_from fl r repl False (MState (Some c) cs [])) \<subseteq> set cs \<union> set repl" by simp
      with Cons show ?thesis by (auto simp: sub_from_None [OF None])
    qed
  next
    case (Some s')
    from find_SomeD [OF Some] have "s' \<in> set (ms fl r s)" by blast
    then have "adv s s'" by (rule adv_ms)
    then have sub: "set (rest s') \<subseteq> set (rest s)" by (rule adv_set)
    show ?thesis
    proof (cases "shorter s' s")
      case True
      from "1.IH"(2) [OF Some True]
      have "set (sub_from fl r repl False (MState (prev s') (rest s') [])) \<subseteq> set (rest s') \<union> set repl"
        by simp
      with sub True show ?thesis by (auto simp: sub_from_Some [OF Some])
    next
      case False
      from "1.IH"(3) [OF Some False]
      have "set (sub_from fl r repl True s) \<subseteq> set (rest s) \<union> set repl" .
      with False show ?thesis by (auto simp: sub_from_Some [OF Some])
    qed
  qed
qed

lemma re_sub_chars: "set (re_sub fl r repl t) \<subseteq> set t \<union> set repl"
  using sub_from_chars [of fl r repl False "start t"] by (simp add: re_sub_sub_from start_def)

lemma ms_In_fun: "ms fl (In neg items) = one_char (in_class fl neg items)"
  by (rule ext) simp

lemma star_one_char:
  "star True (one_char P) (MState p cs c) \<noteq> [] \<and>
   hd (star True (one_char P) (MState p cs c)) =
     MState (if takeWhile P cs = [] then p else Some (last (takeWhile P cs))) (dropWhile P cs) c"
proof (induction cs arbitrary: p)
  case Nil
  show ?case by (subst (1 2) star.simps) (simp add: one_char_def)
next
  case (Cons x xs)
  show ?case
  proof (cases "P x")
    case False
    then show ?thesis by (subst (1 2) star.simps) (simp add: one_char_def)
  next
    case True
    let ?s1 = "MState (Some x) xs c"
    have eq: "star True (one_char P) (MState p (x # xs) c) =
                star True (one_char P) ?s1 @ [MState p (x # xs) c]"
      by (subst star.simps) (simp add: one_char_def shorter_def True)
    from Cons [of "Some x"] True show ?thesis
      by (simp add: eq)
  qed
qed

lemma find_hd: "xs \<noteq> [] \<Longrightarrow> P (hd xs) \<Longrightarrow> find P xs = Some (hd xs)"
  by (cases xs) simp_all

lemma plus_class_find:
  "find (\<lambda>s'. \<not> a \<or> shorter s' (MState p cs c0))
        (ms fl (Plus True (In neg items)) (MState p cs c0)) =
     (case cs of [] \<Rightarrow> None
      | x # xs \<Rightarrow>
          if in_class fl neg items x
          then Some (MState (Some (last (x # takeWhile (in_class fl neg items) xs)))
                            (dropWhile (in_class fl neg items) xs) c0)
          else None)"
proof (cases cs)
  case Nil
  then show ?thesis by (simp add: one_char_def)
next
  case (Cons x xs)
  let ?P = "in_class fl neg items"
  show ?thesis
  proof (cases "?P x")
    case False
    with Cons show ?thesis by (simp add: one_char_def)
  next
    case True
    let ?res = "star True (one_char ?P) (MState (Some x) xs c0)"
    let ?h = "MState (Some (last (x # takeWhile ?P xs))) (dropWhile ?P xs) c0"
    have ms_eq: "ms fl (Plus True (In neg items)) (MState p cs c0) = ?res"
      using Cons True by (simp add: ms_In_fun one_char_def)
    from star_one_char [of ?P "Some x" xs c0]
    have ne: "?res \<noteq> []" and hd: "hd ?res = ?h" by simp_all
    have "length (dropWhile ?P xs) \<le> length xs" by (rule length_dropWhile_le)
    then have "shorter ?h (MState p cs c0)" using Cons by (simp add: shorter_def)
    then have "find (\<lambda>s'. \<not> a \<or> shorter s' (MState p cs c0)) ?res = Some (hd ?res)"
      using ne hd by (intro find_hd) simp_all
    with ms_eq hd Cons True show ?thesis by simp
  qed
qed

lemma sub_plus_class:
  "sub_from fl (Plus True (In neg items)) repl a (MState p cs []) =
     squeeze (in_class fl neg items) repl cs"
proof (induction "in_class fl neg items" repl cs arbitrary: a p rule: squeeze.induct)
  case (1 repl)
  have "find (\<lambda>s'. \<not> a \<or> shorter s' (MState p [] []))
          (ms fl (Plus True (In neg items)) (MState p [] [])) = None"
    by (subst plus_class_find) simp
  from sub_from_None [OF this] show ?case by simp
next
  case (2 repl c cs)
  let ?P = "in_class fl neg items"
  show ?case
  proof (cases "?P c")
    case True
    let ?h = "MState (Some (last (c # takeWhile ?P cs))) (dropWhile ?P cs) []"
    have f: "find (\<lambda>s'. \<not> a \<or> shorter s' (MState p (c # cs) []))
          (ms fl (Plus True (In neg items)) (MState p (c # cs) [])) = Some ?h"
      using True by (subst plus_class_find) simp
    have "length (dropWhile ?P cs) \<le> length cs" by (rule length_dropWhile_le)
    then have sh: "shorter ?h (MState p (c # cs) [])" by (simp add: shorter_def)
    from sub_from_Some [OF f, of repl] sh "2.hyps"(1) [OF True, of False "Some (last (c # takeWhile ?P cs))"] True
    show ?thesis by simp
  next
    case False
    have f: "find (\<lambda>s'. \<not> a \<or> shorter s' (MState p (c # cs) []))
          (ms fl (Plus True (In neg items)) (MState p (c # cs) [])) = None"
      using False by (subst plus_class_find) simp
    from sub_from_None [OF f, of repl] "2.hyps"(2) [OF False, of False "Some c"] False
    show ?thesis by simp
  qed
qed

lemma in_class_space: "in_class [] False [CSpace] = isspace"
  by (rule ext) (simp add: in_class_def)

lemma re_sub_spaces: "re_sub [] (Plus True (In False [CSpace])) repl t = squeeze isspace repl t"
  by (simp add: re_sub_sub_from start_def sub_plus_class in_class_space)

lemma sub_from_no_match:
  assumes "\<And>p cs'. set cs' \<subseteq> A \<Longrightarrow> ms fl r (MState p cs' []) = []"
    and "set cs \<subseteq> A"
  shows "sub_from fl r repl a (MState p cs []) = cs"
  using assms(2)
proof (induction cs arbitrary: a p)
  case Nil
  have "find (\<lambda>s'. \<not> a \<or> shorter s' (MState p [] [])) (ms fl r (MState p [] [])) = None"
    using assms(1) [of "[]" p] by simp
  from sub_from_None [OF this] show ?case by simp
next
  case (Cons c cs)
  have "find (\<lambda>s'. \<not> a \<or> shorter s' (MState p (c # cs) [])) (ms fl r (MState p (c # cs) [])) = None"
    using assms(1) [of "c # cs" p] Cons.prems by simp
  from sub_from_None [OF this, of repl] Cons.IH [of False "Some c"] Cons.prems
  show ?case by simp
qed

lemma first_charD:
  "first_char fl r P \<Longrightarrow> s' \<in> set (ms fl r s) \<Longrightarrow>
     \<exists>c cs. rest s = c # cs \<and> P c \<and> length (rest s') \<le> length cs"
  unfolding first_char_def by blast

lemma first_char_one_char:
  assumes "s' \<in> set (one_char P s)"
  shows "\<exists>c cs. rest s = c # cs \<and> P c \<and> length (rest s') \<le> length cs"
proof (cases "rest s")
  case Nil
  with assms show ?thesis by (simp add: one_char_def)
next
  case (Cons c cs)
  with assms have "P c" "s' = MState (Some c) cs (caps s)"
    by (simp_all add: one_char_def split: if_splits)
  with Cons show ?thesis by simp
qed

lemma first_char_Chr: "IGNORECASE \<notin> set fl \<Longrightarrow> first_char fl (Chr a) (\<lambda>c. c = a)"
  unfolding first_char_def
proof (intro allI impI)
  fix s s' assume "IGNORECASE \<notin> set fl" "s' \<in> set (ms fl (Chr a) s)"
  then have "s' \<in> set (one_char (\<lambda>c. a = c) s)" by (simp add: chr_eq_def [abs_def])
  from first_char_one_char [OF this]
  show "\<exists>c cs. rest s = c # cs \<and> c = a \<and> length (rest s') \<le> length cs" by blast
qed

lemma first_char_In: "first_char fl (In neg items) (in_class fl neg items)"
  unfolding first_char_def
proof (intro allI impI)
  fix s s' assume "s' \<in> set (ms fl (In neg items) s)"
  then have "s' \<in> set (one_char (in_class fl neg items) s)" by simp
  from first_char_one_char [OF this]
  show "\<exists>c cs. rest s = c # cs \<and> in_class fl neg items c \<and> length (rest s') \<le> length cs" .
qed

lemma first_char_Seq:
  assumes "first_char fl a P"
  shows "first_char fl (Seq a b) P"
  unfolding first_char_def
proof (intro allI impI)
  fix s s' assume "s' \<in> set (ms fl (Seq a b) s)"
  then obtain s1 where s1: "s1 \<in> set (ms fl a s)" "s' \<in> set (ms fl b s1)" by auto
  from first_charD [OF assms s1(1)] obtain c cs where
    c: "rest s = c # cs" "P c" "length (rest s1) \<le> length cs" by blast
  from adv_length [OF adv_ms [OF s1(2)]] c(3) have "length (rest s') \<le> length cs" by simp
  with c show "\<exists>c cs. rest s = c # cs \<and> P c \<and> length (rest s') \<le> length cs" by blast
qed

lemma first_char_Alt:
  assumes "first_char fl a P" "first_char fl b Q"
  shows "first_char fl (Alt a b) (\<lambda>c. P c \<or> Q c)"
  unfolding first_char_def
proof (intro allI impI)
  fix s s' assume "s' \<in> set (ms fl (Alt a b) s)"
  then have "s' \<in> set (ms fl a s) \<or> s' \<in> set (ms fl b s)" by simp
  then show "\<exists>c cs. rest s = c # cs \<and> (P c \<or> Q c) \<and> length (rest s') \<le> length cs"
    using first_charD [OF assms(1)] first_charD [OF assms(2)] by blast
qed

lemma first_char_Group:
  assumes "first_char fl r P"
  shows "first_char fl (Group n r) P"
  unfolding first_char_def
proof (intro allI impI)
  fix s s' assume "s' \<in> set (ms fl (Group n r) s)"
  then obtain s1 where s1: "s1 \<in> set (ms fl r s)" "rest s' = rest s1" by auto
  from first_charD [OF assms s1(1)] s1(2)
  show "\<exists>c cs. rest s = c # cs \<and> P c \<and> length (rest s') \<le> length cs" by simp
qed

lemma first_char_Plus:
  assumes "first_char fl r P"
  shows "first_char fl (Plus g r) P"
  unfolding first_char_def
proof (intro allI impI)
  fix s s' assume "s' \<in> set (ms fl (Plus g r) s)"
  then obtain s1 where s1: "s1 \<in> set (ms fl r s)" "s' \<in> set (star g (ms fl r) s1)" by auto
  from first_charD [OF assms s1(1)] obtain c cs where
    c: "rest s = c # cs" "P c" "length (rest s1) \<le> length cs" by blast
  have "\<forall>s s'. s' \<in> set (ms fl r s) \<longrightarrow> adv s s'" using adv_ms by blast
  from adv_star [OF this s1(2)] have "adv s1 s'" .
  from adv_length [OF this] c(3) have "length (rest s') \<le> length cs" by simp
  with c show "\<exists>c cs. rest s = c # cs \<and> P c \<and> length (rest s') \<le> length cs" by blast
qed

lemma first_char_mono:
  assumes "first_char fl r P" "\<And>c. P c \<Longrightarrow> Q c"
  shows "first_char fl r Q"
  unfolding first_char_def
proof (intro allI impI)
  fix s s' assume "s' \<in> set (ms fl r s)"
  from first_charD [OF assms(1) this] assms(2)
  show "\<exists>c cs. rest s = c # cs \<and> Q c \<and> length (rest s') \<le> length cs" by blast
qed

lemma seqs_Cons: "seqs (r # rs) = Seq r (seqs rs)"
  by (simp add: seqs_def)

lemma lit_Cons: "lit (c # cs) = Seq (Chr c) (lit cs)"
  by (simp add: lit_def seqs_def)

lemma first_char_lit: "IGNORECASE \<notin> set fl \<Longrightarrow> first_char fl (lit (c # cs)) (\<lambda>x. x = c)"
  by (simp add: lit_Cons first_char_Seq first_char_Chr)

lemma line_start_none:
  assumes "c \<noteq> newline" "newline \<notin> set cs"
  shows "ms [MULTILINE, DOTALL] (Seq line_start q) (MState (Some c) cs k) = []"
proof -
  have "one_char (chr_eq [MULTILINE, DOTALL] newline) (MState (Some c) cs k) = []"
    using assms(2) by (cases cs) (simp_all add: one_char_def chr_eq_def)
  then have "ms [MULTILINE, DOTALL] line_start (MState (Some c) cs k) = []"
    using assms(1) by (simp add: line_start_def at_bol_def)
  then show ?thesis by simp
qed

lemma line_start_first:
  assumes "newline \<notin> set t"
  shows "ms [MULTILINE, DOTALL] (Seq line_start q) (MState None t k) =
         ms [MULTILINE, DOTALL] q (MState None t k)"
proof -
  have "one_char (chr_eq [MULTILINE, DOTALL] newline) (MState None t k) = []"
    using assms by (cases t) (simp_all add: one_char_def chr_eq_def)
  then have "ms [MULTILINE, DOTALL] line_start (MState None t k) = [MState None t k]"
    by (simp add: line_start_def at_bol_def)
  then show ?thesis by simp
qed

lemma anchored_no_more:
  "c \<noteq> newline \<Longrightarrow> newline \<notin> set cs \<Longrightarrow>
     matches_from [MULTILINE, DOTALL] (Seq line_start q) a (MState (Some c) cs k) = []"
proof (induction cs arbitrary: c a k)
  case Nil
  have "find (\<lambda>s'. \<not> a \<or> shorter s' (MState (Some c) [] k))
          (ms [MULTILINE, DOTALL] (Seq line_start q) (MState (Some c) [] k)) = None"
    by (subst line_start_none) (simp_all add: Nil.prems)
  from matches_from_None [OF this] show ?case by simp
next
  case (Cons x xs)
  have "find (\<lambda>s'. \<not> a \<or> shorter s' (MState (Some c) (x # xs) k))
          (ms [MULTILINE, DOTALL] (Seq line_start q) (MState (Some c) (x # xs) k)) = None"
    using Cons.prems by (subst line_start_none) simp_all
  moreover from Cons.prems have "x \<noteq> newline" "newline \<notin> set xs" by auto
  then have "matches_from [MULTILINE, DOTALL] (Seq line_start q) False (MState (Some x) xs []) = []"
    by (rule Cons.IH)
  ultimately show ?case by (simp add: matches_from_None)
qed

lemma anchored_matches:
  assumes fc: "first_char [MULTILINE, DOTALL] q P" and nl: "newline \<notin> set t"
  shows "length (matches_from [MULTILINE, DOTALL] (Seq line_start q) False (start t)) \<le> 1 \<and>
         (matches_from [MULTILINE, DOTALL] (Seq line_start q) False (start t) \<noteq> [] \<longrightarrow>
            t \<noteq> [] \<and> P (hd t))"
proof -
  let ?fl = "[MULTILINE, DOTALL]"
  let ?s0 = "MState None t []"
  let ?r = "Seq line_start q"
  show ?thesis
  proof (cases "find (\<lambda>s'. \<not> False \<or> shorter s' ?s0) (ms ?fl ?r ?s0)")
    case None
    have "matches_from ?fl ?r False ?s0 = []"
    proof (cases t)
      case Nil
      with matches_from_None [OF None] show ?thesis by simp
    next
      case (Cons c cs)
      with nl have "c \<noteq> newline" "newline \<notin> set cs" by auto
      from anchored_no_more [OF this] matches_from_None [OF None] Cons show ?thesis by simp
    qed
    then show ?thesis by (simp add: start_def)
  next
    case (Some s')
    from find_SomeD [OF Some] have "s' \<in> set (ms ?fl ?r ?s0)" by blast
    then have in_q: "s' \<in> set (ms ?fl q ?s0)" by (simp only: line_start_first [OF nl])
    from first_charD [OF fc in_q] obtain c cs where
      c: "t = c # cs" "P c" "length (rest s') \<le> length cs" by auto
    then have sh: "shorter s' ?s0" by (simp add: shorter_def)
    from adv_ms [OF in_q] obtain u where
      u: "t = u @ rest s'" "prev s' = (if u = [] then None else Some (last u))"
      unfolding adv_def by auto
    have "length t = Suc (length cs)" using c(1) by simp
    moreover have "length t = length u + length (rest s')" using u(1) by (metis length_append)
    ultimately have "u \<noteq> []" using c(3) by auto
    with u(2) have p: "prev s' = Some (last u)" by simp
    from \<open>u \<noteq> []\<close> have "last u \<in> set u" by simp
    with u(1) nl have "last u \<noteq> newline" "newline \<notin> set (rest s')"
      by (metis Un_iff set_append)+
    from anchored_no_more [OF this, of q False "[]"] p
    have "matches_from ?fl ?r False (MState (prev s') (rest s') []) = []" by simp
    with matches_from_Some [OF Some] sh have "matches_from ?fl ?r False ?s0 = [s']" by simp
    with c show ?thesis by (simp add: start_def)
  qed
qed

lemma finditer_matches_from:
  "finditer fl r t = map (\<lambda>s'. Match (group_names r) (caps s')) (matches_from fl r False (start t))"
proof -
  have "concat (map (\<lambda>g. case g of Unmatched c \<Rightarrow> [] | Matched s' \<Rightarrow> [F s']) xs) =
        map F (concat (map (\<lambda>g. case g of Unmatched c \<Rightarrow> [] | Matched s' \<Rightarrow> [s']) xs))" for F :: "mstate \<Rightarrow> match" and xs
    by (induction xs) (simp_all split: seg.splits)
  then show ?thesis by (simp add: finditer_def matches_from_def)
qed

lemma anchored_finditer:
  assumes "first_char [MULTILINE, DOTALL] q P" "newline \<notin> set t"
  shows "length (finditer [MULTILINE, DOTALL] (Seq line_start q) t) \<le> 1"
    and "finditer [MULTILINE, DOTALL] (Seq line_start q) t \<noteq> [] \<Longrightarrow> t \<noteq> [] \<and> P (hd t)"
  using anchored_matches [OF assms] by (simp_all add: finditer_matches_from)

lemma isdigit_class: "in_class [MULTILINE, DOTALL] False [CDigit] = isdigit"
  by (rule ext) (simp add: in_class_def)

lemma first_char_marker_q:
  "first_char [MULTILINE, DOTALL] (Group ''marker'' (Alt (lit ''Q'') (lit ''Question''))) (\<lambda>c. c = CHR ''Q'')"
proof -
  have "first_char [MULTILINE, DOTALL] (Alt (lit ''Q'') (lit ''Question''))
          (\<lambda>c. c = CHR ''Q'' \<or> c = CHR ''Q'')"
    by (intro first_char_Alt first_char_lit) simp_all
  then show ?thesis by (intro first_char_Group) simp
qed

lemma first_char_marker_p:
  "first_char [MULTILINE, DOTALL] (Group ''marker'' (Alt (lit ''Problem'') (lit ''Exercise'')))
     (\<lambda>c. c = CHR ''P'' \<or> c = CHR ''E'')"
  by (intro first_char_Group first_char_Alt first_char_lit) simp_all

lemma first_char_id: "first_char [MULTILINE, DOTALL] (Group ''id'' (Plus True digit)) isdigit"
proof -
  have "first_char [MULTILINE, DOTALL] (Group ''id'' (Plus True (In False [CDigit])))
          (in_class [MULTILINE, DOTALL] False [CDigit])"
    by (intro first_char_Group first_char_Plus first_char_In)
  then show ?thesis by (simp only: isdigit_class digit_def)
qed

lemma first_char_bracket: "first_char [MULTILINE, DOTALL] (Chr CHR ''['') (\<lambda>c. c = CHR ''['')"
  by (rule first_char_Chr) simp

lemma standard_once:
  assumes "newline \<notin> set t"
  shows "length (finditer [MULTILINE, DOTALL] pattern_standard t) \<le> 1"
    and "finditer [MULTILINE, DOTALL] pattern_standard t \<noteq> [] \<Longrightarrow> t \<noteq> [] \<and> hd t = CHR ''Q''"
  unfolding pattern_standard_def seqs_Cons
  using anchored_finditer [OF first_char_Seq [OF first_char_marker_q] assms] by blast+

lemma numbered_once:
  assumes "newline \<notin> set t"
  shows "length (finditer [MULTILINE, DOTALL] pattern_numbered t) \<le> 1"
    and "finditer [MULTILINE, DOTALL] pattern_numbered t \<noteq> [] \<Longrightarrow> t \<noteq> [] \<and> isdigit (hd t)"
  unfolding pattern_numbered_def seqs_Cons
  using anchored_finditer [OF first_char_Seq [OF first_char_id] assms] by blast+

lemma bracketed_once:
  assumes "newline \<notin> set t"
  shows "length (finditer [MULTILINE, DOTALL] pattern_bracketed t) \<le> 1"
    and "finditer [MULTILINE, DOTALL] pattern_bracketed t \<noteq> [] \<Longrightarrow> t \<noteq> [] \<and> hd t = CHR ''[''"
  unfolding pattern_bracketed_def seqs_Cons
  using anchored_finditer [OF first_char_Seq [OF first_char_bracket] assms] by blast+

lemma problem_once:
  assumes "newline \<notin> set t"
  shows "length (finditer [MULTILINE, DOTALL] pattern_problem t) \<le> 1"
    and "finditer [MULTILINE, DOTALL] pattern_problem t \<noteq> [] \<Longrightarrow>
           t \<noteq> [] \<and> (hd t = CHR ''P'' \<or> hd t = CHR ''E'')"
  unfolding pattern_problem_def seqs_Cons
  using anchored_finditer [OF first_char_Seq [OF first_char_marker_p] assms] by blast+

section \<open>The extraction loop\<close>

lemma process_match_cases:
  assumes "process_match st m = Inr st'"
  shows "(st' = st \<and> (\<forall>i. match_id m = Inr i \<and> i \<notin> snd st \<longrightarrow> rejected m)) \<or>
         (\<exists>q. accepts m q \<and> question_id q \<notin> snd st \<and>
               st' = (fst st @ [q], insert (question_id q) (snd st)))"
proof -
  from assms obtain q_id where i: "match_id m = Inr q_id"
    by (cases "match_id m") (simp_all add: process_match_def)
  from assms i obtain q_text where t: "match_text m = Inr q_text"
    by (cases "match_text m") (simp_all add: process_match_def)
  show ?thesis
  proof (cases "q_id \<in> snd st")
    case True
    with assms i t have "st' = st" by (simp add: process_match_def)
    with True i show ?thesis by simp
  next
    case False
    with assms i t obtain c where c: "calculate_confidence q_text m = Inr c"
      by (cases "calculate_confidence q_text m") (simp_all add: process_match_def)
    show ?thesis
    proof (cases "c > 5 / 10")
      case True
      let ?q = "\<lparr>question_id = q_id, question_text = q_text, confidence = c\<rparr>"
      from assms i t c False True have "st' = (fst st @ [?q], insert q_id (snd st))"
        by (simp add: process_match_def)
      moreover have "accepts m ?q" using i t c True by (simp add: accepts_def)
      ultimately show ?thesis using False by (intro disjI2 exI [of _ ?q]) simp
    next
      case low: False
      with assms i t c False have "st' = st" by (simp add: process_match_def)
      moreover have "rejected m" using t c low by (auto simp: rejected_def)
      ultimately show ?thesis by simp
    qed
  qed
qed

lemma process_match_good:
  assumes "process_match st m = Inr st'" "good st"
  shows "good st'"
proof -
  from assms(2) have d: "distinct (map question_id (fst st))" and e: "snd st = question_id ` set (fst st)"
    by (simp_all add: good_def)
  from process_match_cases [OF assms(1)] show ?thesis
  proof (elim disjE exE conjE)
    assume "st' = st"
    with assms(2) show ?thesis by simp
  next
    fix q assume q: "question_id q \<notin> snd st" "st' = (fst st @ [q], insert (question_id q) (snd st))"
    from q(1) e have "question_id q \<notin> question_id ` set (fst st)" by simp
    with d e q(2) show ?thesis by (simp add: good_def)
  qed
qed

lemma process_match_mono:
  assumes "process_match st m = Inr st'"
  shows "snd st \<subseteq> snd st'"
  using process_match_cases [OF assms] by auto

lemma for_matches_good:
  "for_matches st mts = Inr st' \<Longrightarrow> good st \<Longrightarrow> good st'"
proof (induction mts arbitrary: st)
  case Nil
  then show ?case by simp
next
  case (Cons m mts)
  from Cons.prems(1) obtain st1 where s: "process_match st m = Inr st1" "for_matches st1 mts = Inr st'"
    by (cases "process_match st m") simp_all
  from process_match_good [OF s(1) Cons.prems(2)] Cons.IH [OF s(2)] show ?case by simp
qed

lemma for_matches_length:
  "for_matches st mts = Inr st' \<Longrightarrow> length (fst st') \<le> length (fst st) + length mts"
proof (induction mts arbitrary: st)
  case Nil
  then show ?case by simp
next
  case (Cons m mts)
  from Cons.prems(1) obtain st1 where s: "process_match st m = Inr st1" "for_matches st1 mts = Inr st'"
    by (cases "process_match st m") simp_all
  from process_match_cases [OF s(1)] have "length (fst st1) \<le> Suc (length (fst st))" by auto
  with Cons.IH [OF s(2)] show ?case by simp
qed

lemma for_matches_append:
  "for_matches st (xs @ ys) =
     (case for_matches st xs of Inl e \<Rightarrow> Inl e | Inr st' \<Rightarrow> for_matches st' ys)"
  by (induction xs arbitrary: st) (simp_all split: sum.splits)

lemma for_patterns_concat:
  "for_patterns text st ps =
     for_matches st (concat (map (\<lambda>pattern. finditer [MULTILINE, DOTALL] pattern text) ps))"
  by (induction ps arbitrary: st) (simp_all add: for_matches_append split: sum.splits)

lemma extract_all_matches:
  "extract_with_confidence text =
     (case for_matches ([], {}) (all_matches text) of
        Inl e \<Rightarrow> Inl e | Inr st \<Rightarrow> Inr (sort_key question_id (fst st)))"
  by (simp add: extract_with_confidence_def for_patterns_concat all_matches_def)

lemma for_matches_origin:
  "for_matches st mts = Inr st' \<Longrightarrow> q \<in> set (fst st') \<Longrightarrow>
     q \<in> set (fst st) \<or>
     (\<exists>pre m post. mts = pre @ m # post \<and> accepts m q \<and> question_id q \<notin> snd st \<and>
        (\<forall>m' \<in> set pre. match_id m' = Inr (question_id q) \<longrightarrow> rejected m'))"
proof (induction mts arbitrary: st)
  case Nil
  then show ?case by simp
next
  case (Cons m mts)
  from Cons.prems(1) obtain st1 where s: "process_match st m = Inr st1" "for_matches st1 mts = Inr st'"
    by (cases "process_match st m") simp_all
  from Cons.IH [OF s(2) Cons.prems(2)]
  have "q \<in> set (fst st1) \<or>
     (\<exists>pre m1 post. mts = pre @ m1 # post \<and> accepts m1 q \<and> question_id q \<notin> snd st1 \<and>
        (\<forall>m' \<in> set pre. match_id m' = Inr (question_id q) \<longrightarrow> rejected m'))" .
  then show ?case
  proof (elim disjE exE conjE)
    assume old: "q \<in> set (fst st1)"
    from process_match_cases [OF s(1)] show ?thesis
    proof (elim disjE exE conjE)
      assume "st1 = st"
      with old show ?thesis by simp
    next
      fix q' assume q': "accepts m q'" "question_id q' \<notin> snd st"
        "st1 = (fst st @ [q'], insert (question_id q') (snd st))"
      show ?thesis
      proof (cases "q = q'")
        case True
        have "m # mts = [] @ m # mts \<and> accepts m q \<and> question_id q \<notin> snd st \<and>
          (\<forall>m' \<in> set []. match_id m' = Inr (question_id q) \<longrightarrow> rejected m')"
          using q' True by simp
        then show ?thesis by (intro disjI2 exI)
      next
        case False
        with old q'(3) show ?thesis by simp
      qed
    qed
  next
    fix pre m1 post
    assume new: "mts = pre @ m1 # post" "accepts m1 q" "question_id q \<notin> snd st1"
        "\<forall>m' \<in> set pre. match_id m' = Inr (question_id q) \<longrightarrow> rejected m'"
    from process_match_mono [OF s(1)] new(3) have notin: "question_id q \<notin> snd st" by auto
    have m_rej: "match_id m = Inr (question_id q) \<longrightarrow> rejected m"
    proof
      assume mid: "match_id m = Inr (question_id q)"
      from process_match_cases [OF s(1)] show "rejected m"
      proof (elim disjE exE conjE)
        assume "\<forall>i. match_id m = Inr i \<and> i \<notin> snd st \<longrightarrow> rejected m"
        with mid notin show ?thesis by blast
      next
        fix q' assume "accepts m q'" "st1 = (fst st @ [q'], insert (question_id q') (snd st))"
        with mid new(3) show ?thesis by (simp add: accepts_def)
      qed
    qed
    have "m # mts = (m # pre) @ m1 # post \<and> accepts m1 q \<and> question_id q \<notin> snd st \<and>
      (\<forall>m' \<in> set (m # pre). match_id m' = Inr (question_id q) \<longrightarrow> rejected m')"
      using new(1,2,4) m_rej notin by simp
    then show ?thesis by (intro disjI2 exI)
  qed
qed

lemma accepts_not_rejected:
  assumes "accepts m q"
  shows "\<not> rejected m"
proof
  assume "rejected m"
  then obtain t c where r: "match_text m = Inr t" "calculate_confidence t m = Inr c" "c \<le> 5 / 10"
    unfolding rejected_def by (elim exE conjE)
  from assms have a: "match_text m = Inr (question_text q)"
    "calculate_confidence (question_text q) m = Inr (confidence q)" "confidence q > 5 / 10"
    by (simp_all add: accepts_def)
  from r(1) a(1) have "t = question_text q" by simp
  with r(2) a(2) have "c = confidence q" by simp
  with r(3) a(3) show False by simp
qed

lemma accepts_unique:
  assumes "accepts m q" "accepts m q'"
  shows "q = q'"
proof (rule QuestionMatch.equality)
  from assms show "question_id q = question_id q'" by (simp add: accepts_def)
  from assms show "question_text q = question_text q'" by (simp add: accepts_def)
  from assms have "question_text q = question_text q'" by (simp add: accepts_def)
  with assms show "confidence q = confidence q'" by (simp add: accepts_def)
  show "QuestionMatch.more q = QuestionMatch.more q'" by simp
qed

lemma process_match_unseen:
  assumes "process_match st m = Inr st'" "i \<notin> snd st" "match_id m = Inr i \<longrightarrow> rejected m"
  shows "i \<notin> snd st'"
  using process_match_cases [OF assms(1)]
proof (elim disjE exE conjE)
  assume "st' = st"
  with assms(2) show ?thesis by simp
next
  fix q assume q: "accepts m q" "st' = (fst st @ [q], insert (question_id q) (snd st))"
  have "question_id q \<noteq> i"
  proof
    assume "question_id q = i"
    with q(1) have "match_id m = Inr i" by (simp add: accepts_def)
    with assms(3) have "rejected m" by simp
    with accepts_not_rejected [OF q(1)] show False by simp
  qed
  with assms(2) q(2) show ?thesis by auto
qed

lemma for_matches_unseen:
  "for_matches st mts = Inr st' \<Longrightarrow> i \<notin> snd st \<Longrightarrow>
     (\<forall>m' \<in> set mts. match_id m' = Inr i \<longrightarrow> rejected m') \<Longrightarrow> i \<notin> snd st'"
proof (induction mts arbitrary: st)
  case Nil
  then show ?case by simp
next
  case (Cons m mts)
  from Cons.prems(1) obtain st1 where s: "process_match st m = Inr st1" "for_matches st1 mts = Inr st'"
    by (cases "process_match st m") simp_all
  from Cons.prems(3) have m: "match_id m = Inr i \<longrightarrow> rejected m"
    and rest: "\<forall>m' \<in> set mts. match_id m' = Inr i \<longrightarrow> rejected m'" by simp_all
  from process_match_unseen [OF s(1) Cons.prems(2) m] have "i \<notin> snd st1" .
  from Cons.IH [OF s(2) this rest] show ?case .
qed

lemma process_match_keeps:
  assumes "process_match st m = Inr st'"
  shows "set (fst st) \<subseteq> set (fst st')"
  using process_match_cases [OF assms] by auto

lemma for_matches_keeps:
  "for_matches st mts = Inr st' \<Longrightarrow> set (fst st) \<subseteq> set (fst st')"
proof (induction mts arbitrary: st)
  case Nil
  then show ?case by simp
next
  case (Cons m mts)
  from Cons.prems(1) obtain st1 where s: "process_match st m = Inr st1" "for_matches st1 mts = Inr st'"
    by (cases "process_match st m") simp_all
  from process_match_keeps [OF s(1)] Cons.IH [OF s(2)] show ?case by blast
qed

lemma for_matches_complete:
  assumes run: "for_matches st (pre @ m # post) = Inr st'"
    and acc: "accepts m q"
    and unseen: "question_id q \<notin> snd st"
    and earlier: "\<forall>m' \<in> set pre. match_id m' = Inr (question_id q) \<longrightarrow> rejected m'"
  shows "q \<in> set (fst st')"
proof -
  from run obtain st1 where s1: "for_matches st pre = Inr st1"
    and r1: "for_matches st1 (m # post) = Inr st'"
    by (cases "for_matches st pre") (simp_all add: for_matches_append)
  from r1 obtain st2 where s2: "process_match st1 m = Inr st2"
    and s3: "for_matches st2 post = Inr st'"
    by (cases "process_match st1 m") simp_all
  from for_matches_unseen [OF s1 unseen earlier] have u1: "question_id q \<notin> snd st1" .
  from acc have mid: "match_id m = Inr (question_id q)" by (simp add: accepts_def)
  have "q \<in> set (fst st2)"
    using process_match_cases [OF s2]
  proof (elim disjE exE conjE)
    assume "\<forall>i. match_id m = Inr i \<and> i \<notin> snd st1 \<longrightarrow> rejected m"
    with mid u1 have "rejected m" by blast
    with accepts_not_rejected [OF acc] show ?thesis by simp
  next
    fix q' assume q': "accepts m q'" "st2 = (fst st1 @ [q'], insert (question_id q') (snd st1))"
    from accepts_unique [OF acc q'(1)] q'(2) show ?thesis by simp
  qed
  with for_matches_keeps [OF s3] show ?thesis by blast
qed

section \<open>White-space runs, \<^verbatim>\<open>strip\<close> and \<^verbatim>\<open>_final_clean\<close>\<close>

lemma dropWhile_snoc: "\<not> P c \<Longrightarrow> dropWhile P (xs @ [c]) = dropWhile P xs @ [c]"
  by (induction xs) simp_all

lemma squeeze_snoc_keep: "\<not> P c \<Longrightarrow> squeeze P repl (u @ [c]) = squeeze P repl u @ [c]"
  by (induction P repl u rule: squeeze.induct) (simp_all add: dropWhile_snoc)

lemma dropWhile_all: "(\<forall>x \<in> set xs. P x) \<Longrightarrow> dropWhile P xs = []"
  by (induction xs) simp_all

lemma last_dropWhile: "dropWhile P xs \<noteq> [] \<Longrightarrow> last (dropWhile P xs) = last xs"
  by (induction xs) (auto split: if_splits)

lemma squeeze_snoc_drop:
  "P c \<Longrightarrow> squeeze P repl (u @ [c]) =
     (if u \<noteq> [] \<and> P (last u) then squeeze P repl u else squeeze P repl u @ repl)"
proof (induction P repl u rule: squeeze.induct)
  case (1 P repl)
  then show ?case by simp
next
  case (2 P repl x xs)
  show ?case
  proof (cases "P x")
    case False
    with 2 show ?thesis by (cases "xs = []") simp_all
  next
    case True
    show ?thesis
    proof (cases "\<forall>y \<in> set xs. P y")
      case all: True
      then have d0: "dropWhile P xs = []" by (rule dropWhile_all)
      from all "2.prems" have "\<forall>y \<in> set (xs @ [c]). P y" by simp
      then have dc: "dropWhile P (xs @ [c]) = []" by (rule dropWhile_all)
      from all True have pl: "P (last (x # xs))" by (cases "xs = []") simp_all
      have "squeeze P repl (x # (xs @ [c])) = repl @ squeeze P repl (dropWhile P (xs @ [c]))"
        using True by (simp only: squeeze.simps if_True)
      also have "\<dots> = repl" by (simp only: dc squeeze.simps append_Nil2)
      finally have lhs: "squeeze P repl ((x # xs) @ [c]) = repl" by simp
      have "squeeze P repl (x # xs) = repl @ squeeze P repl (dropWhile P xs)"
        using True by (simp only: squeeze.simps if_True)
      also have "\<dots> = repl" by (simp only: d0 squeeze.simps append_Nil2)
      finally have rhs: "squeeze P repl (x # xs) = repl" .
      from lhs rhs pl show ?thesis by simp
    next
      case False
      then obtain y where y: "y \<in> set xs" "\<not> P y" by blast
      then have dw: "dropWhile P (xs @ [c]) = dropWhile P xs @ [c]" by (rule dropWhile_append1)
      from y have ne: "dropWhile P xs \<noteq> []" by (auto simp: dropWhile_eq_Nil_conv)
      from y have "xs \<noteq> []" by auto
      then have l: "last (x # xs) = last xs" by simp
      from "2.IH"(1) [OF True "2.prems"] ne last_dropWhile [OF ne] True dw l
      show ?thesis by simp
    qed
  qed
qed

lemma length_squeeze: "length (squeeze P [r] u) \<le> length u"
proof (induction P "[r]" u rule: squeeze.induct)
  case (1 P)
  then show ?case by simp
next
  case (2 P c cs)
  have "length (dropWhile P cs) \<le> length cs" by (rule length_dropWhile_le)
  with 2 show ?case by (cases "P c") auto
qed

lemma squeeze_fix_snoc:
  assumes "squeeze P [r] (u @ [c]) = u @ [c]"
  shows "squeeze P [r] u = u"
proof (cases "P c")
  case False
  with assms show ?thesis by (simp add: squeeze_snoc_keep)
next
  case True
  show ?thesis
  proof (cases "u \<noteq> [] \<and> P (last u)")
    case True
    with assms \<open>P c\<close> have "squeeze P [r] u = u @ [c]" by (simp add: squeeze_snoc_drop)
    then have "length (squeeze P [r] u) = Suc (length u)" by simp
    with length_squeeze [of P r u] show ?thesis by simp
  next
    case False
    with \<open>P c\<close> have "squeeze P [r] (u @ [c]) = squeeze P [r] u @ [r]"
      by (simp add: squeeze_snoc_drop)
    with assms have "squeeze P [r] u @ [r] = u @ [c]" by (simp only:)
    then show ?thesis by auto
  qed
qed

lemma squeeze_fix_rstrip:
  "squeeze P [r] v = v \<Longrightarrow>
     squeeze P [r] (rev (dropWhile P (rev v))) = rev (dropWhile P (rev v))"
proof (induction v rule: rev_induct)
  case Nil
  then show ?case by simp
next
  case (snoc c u)
  from squeeze_fix_snoc [OF snoc.prems] have "squeeze P [r] u = u" .
  with snoc.IH snoc.prems show ?case by (cases "P c") simp_all
qed

lemma dropWhile_squeeze_head:
  "w = [] \<or> \<not> P (hd w) \<Longrightarrow> dropWhile P (squeeze P repl w) = squeeze P repl w"
  by (cases w) auto

lemma hd_dropWhile_or: "dropWhile P xs = [] \<or> \<not> P (hd (dropWhile P xs))"
  using hd_dropWhile [of P xs] by blast

lemma squeeze_idem: "P r \<Longrightarrow> squeeze P [r] (squeeze P [r] t) = squeeze P [r] t"
proof (induction P "[r]" t rule: squeeze.induct)
  case (1 P)
  then show ?case by simp
next
  case (2 P c cs)
  show ?case
  proof (cases "P c")
    case True
    have "dropWhile P (squeeze P [r] (dropWhile P cs)) = squeeze P [r] (dropWhile P cs)"
      by (rule dropWhile_squeeze_head) (rule hd_dropWhile_or)
    with "2.hyps"(1) [OF True "2.prems"] True "2.prems" show ?thesis by simp
  next
    case False
    with "2.hyps"(2) [OF False "2.prems"] show ?thesis by simp
  qed
qed

lemma squeeze_fix_lstrip:
  assumes "P r" "squeeze P [r] v = v"
  shows "squeeze P [r] (dropWhile P v) = dropWhile P v"
proof (cases v)
  case Nil
  then show ?thesis by simp
next
  case (Cons c cs)
  show ?thesis
  proof (cases "P c")
    case False
    with Cons assms(2) show ?thesis by simp
  next
    case True
    let ?w = "dropWhile P cs"
    from assms(2) Cons True have cs: "cs = squeeze P [r] ?w" by auto
    have "dropWhile P (squeeze P [r] ?w) = squeeze P [r] ?w"
      by (rule dropWhile_squeeze_head) (rule hd_dropWhile_or)
    with cs have "?w = squeeze P [r] ?w" by simp
    with Cons True show ?thesis by simp
  qed
qed

lemma squeeze_fix_strip:
  "squeeze isspace '' '' (strip (squeeze isspace '' '' t)) = strip (squeeze isspace '' '' t)"
proof -
  have sp: "isspace CHR '' ''" by (simp add: isspace_def ord_def)
  let ?v = "squeeze isspace '' '' t"
  have 1: "squeeze isspace '' '' ?v = ?v"
    using sp by (rule squeeze_idem)
  have 2: "squeeze isspace '' '' (dropWhile isspace ?v) = dropWhile isspace ?v"
    using sp 1 by (rule squeeze_fix_lstrip)
  have "squeeze isspace '' '' (rev (dropWhile isspace (rev (dropWhile isspace ?v)))) =
        rev (dropWhile isspace (rev (dropWhile isspace ?v)))"
    using 2 by (rule squeeze_fix_rstrip)
  then show ?thesis by (simp only: strip_def)
qed

lemma strip_ends: "strip x = [] \<or> (\<not> isspace (hd (strip x)) \<and> \<not> isspace (last (strip x)))"
proof (cases "strip x = []")
  case True
  then show ?thesis by simp
next
  case False
  let ?y = "dropWhile isspace x"
  let ?z = "dropWhile isspace (rev ?y)"
  from False have z: "?z \<noteq> []" by (simp add: strip_def)
  have y: "?y \<noteq> []"
  proof
    assume "?y = []"
    then have "?z = []" by (simp only: rev.simps dropWhile.simps)
    with z show False by blast
  qed
  from z hd_dropWhile [of isspace "rev ?y"] have "\<not> isspace (hd ?z)" by blast
  then have l: "\<not> isspace (last (strip x))" using z by (simp add: strip_def last_rev)
  from last_dropWhile [OF z] have "last ?z = hd ?y" using y by (simp add: last_rev)
  moreover from y hd_dropWhile [of isspace x] have "\<not> isspace (hd ?y)" by blast
  ultimately have "\<not> isspace (hd (strip x))" using z by (simp add: strip_def hd_rev)
  with l show ?thesis by simp
qed

lemma strip_id:
  assumes "v = [] \<or> (\<not> isspace (hd v) \<and> \<not> isspace (last v))"
  shows "strip v = v"
proof (cases v)
  case Nil
  then show ?thesis by (simp add: strip_def)
next
  case (Cons c cs)
  with assms have h: "\<not> isspace c" and l: "\<not> isspace (last v)" by simp_all
  from h Cons have 1: "dropWhile isspace v = v" by simp
  from Cons have "rev v \<noteq> []" by simp
  then obtain d ds where r: "rev v = d # ds" by (cases "rev v") auto
  then have "d = last v" using Cons by (metis hd_rev list.sel(1))
  with l have "dropWhile isspace (d # ds) = d # ds" by simp
  with r have "dropWhile isspace (rev v) = rev v" by (simp only:)
  with 1 show ?thesis by (simp add: strip_def)
qed

lemma final_clean_squeeze:
  "final_clean text =
     (let u = strip (squeeze isspace '' '' text)
      in if u \<noteq> [] \<and> \<not> (last u = CHR ''.'' \<or> last u = CHR ''?'') then u @ ''.'' else u)"
  by (simp add: final_clean_def space_def re_sub_spaces)

lemma final_clean_end:
  assumes "final_clean t \<noteq> []"
  shows "last (final_clean t) = CHR ''.'' \<or> last (final_clean t) = CHR ''?''"
proof -
  let ?u = "strip (squeeze isspace '' '' t)"
  show ?thesis
  proof (cases "?u \<noteq> [] \<and> \<not> (last ?u = CHR ''.'' \<or> last ?u = CHR ''?'')")
    case True
    then have "final_clean t = ?u @ ''.''" by (simp add: final_clean_squeeze Let_def)
    then show ?thesis by simp
  next
    case False
    then have e: "final_clean t = ?u" by (simp add: final_clean_squeeze Let_def)
    with assms have "?u \<noteq> []" by simp
    with False e show ?thesis by simp
  qed
qed

lemma not_space_dot: "\<not> isspace CHR ''.''"
  by (simp add: isspace_def ord_def)

lemma final_clean_idem: "final_clean (final_clean t) = final_clean t"
proof -
  let ?u = "strip (squeeze isspace '' '' t)"
  have fx: "squeeze isspace '' '' ?u = ?u" by (rule squeeze_fix_strip)
  have ends: "?u = [] \<or> (\<not> isspace (hd ?u) \<and> \<not> isspace (last ?u))" by (rule strip_ends)
  consider (empty) "?u = []"
    | (keep) "?u \<noteq> []" "last ?u = CHR ''.'' \<or> last ?u = CHR ''?''"
    | (dot) "?u \<noteq> []" "\<not> (last ?u = CHR ''.'' \<or> last ?u = CHR ''?'')"
    by blast
  then show ?thesis
  proof cases
    case empty
    then have "final_clean t = []" by (simp add: final_clean_squeeze Let_def)
    moreover have "final_clean [] = []" by (simp add: final_clean_squeeze strip_def Let_def)
    ultimately show ?thesis by simp
  next
    case keep
    then have e: "final_clean t = ?u" by (simp add: final_clean_squeeze Let_def)
    have "strip ?u = ?u" using ends by (rule strip_id)
    with fx keep have "final_clean ?u = ?u" by (simp add: final_clean_squeeze Let_def)
    with e show ?thesis by simp
  next
    case dot
    let ?r = "?u @ ''.''"
    from dot have e: "final_clean t = ?r" by (simp add: final_clean_squeeze Let_def)
    have sq: "squeeze isspace '' '' ?r = ?r"
      using fx not_space_dot by (simp add: squeeze_snoc_keep)
    from dot(1) ends have "\<not> isspace (hd ?r) \<and> \<not> isspace (last ?r)"
      using not_space_dot by simp
    then have "strip ?r = ?r" by (intro strip_id) simp
    with sq have "final_clean ?r = ?r" by (simp add: final_clean_squeeze Let_def)
    with e show ?thesis by simp
  qed
qed

lemma post_process_filter:
  "post_process_questions qs =
     map (\<lambda>q. \<lparr>dict_question_id = question_id q, dict_question = final_clean (question_text q)\<rparr>)
         (filter (\<lambda>q. final_clean (question_text q) \<noteq> []) qs)"
  by (induction qs) (simp_all add: Let_def)

lemma post_process_ids:
  "map dict_question_id (post_process_questions qs) =
     map question_id (filter (\<lambda>q. final_clean (question_text q) \<noteq> []) qs)"
  by (simp add: post_process_filter comp_def)

lemma post_process_length: "length (post_process_questions qs) \<le> length qs"
  by (simp add: post_process_filter)

lemma post_process_member:
  assumes "r \<in> set (post_process_questions qs)"
  shows "\<exists>q \<in> set qs. dict_question_id r = question_id q \<and>
           dict_question r = final_clean (question_text q) \<and> dict_question r \<noteq> []"
  using assms by (auto simp: post_process_filter)

lemma good_init: "good ([], {})"
  by (simp add: good_def)

lemma distinct_map_insort_key:
  "distinct (map f (insort_key f x xs)) = (f x \<notin> f ` set xs \<and> distinct (map f xs))"
  by (induction xs) (auto simp: set_insort_key)

lemma distinct_map_sort_key: "distinct (map f xs) \<Longrightarrow> distinct (map f (sort_key f xs))"
  by (induction xs) (simp_all add: sort_key_simps distinct_map_insort_key)

lemma extract_sorted:
  assumes "extract_with_confidence text = Inr qs"
  shows "sorted_wrt (<) (map question_id qs)"
proof -
  from assms obtain st where st: "for_matches ([], {}) (all_matches text) = Inr st"
    and qs: "qs = sort_key question_id (fst st)"
    by (cases "for_matches ([], {}) (all_matches text)") (auto simp: extract_all_matches)
  from for_matches_good [OF st good_init] have d: "distinct (map question_id (fst st))"
    by (simp add: good_def)
  have "sorted (map question_id qs)" unfolding qs by (rule sorted_sort_key)
  moreover have "distinct (map question_id qs)" unfolding qs using d by (rule distinct_map_sort_key)
  ultimately show ?thesis by (simp add: strict_sorted_iff)
qed

lemma sorted_wrt_map_filter:
  "sorted_wrt (<) (map f xs) \<Longrightarrow> sorted_wrt (<) (map f (filter P xs))"
  by (induction xs) auto

section \<open>Cleaned texts have a single line\<close>

lemma squeeze_members: "c \<in> set (squeeze P repl cs) \<Longrightarrow> P c \<Longrightarrow> c \<in> set repl"
proof (induction P repl cs rule: squeeze.induct)
  case (1 P repl)
  then show ?case by simp
next
  case (2 P repl x xs)
  show ?case
  proof (cases "P x")
    case True
    with "2.prems"(1) have "c \<in> set repl \<or> c \<in> set (squeeze P repl (dropWhile P xs))" by simp
    with "2.IH"(1) [OF True _ "2.prems"(2)] show ?thesis by blast
  next
    case False
    with "2.prems" have "c \<in> set (squeeze P repl xs)" by auto
    with "2.IH"(2) [OF False _ "2.prems"(2)] show ?thesis by blast
  qed
qed

lemma isspace_newline: "isspace newline"
  by (simp add: isspace_def ord_def newline_def)

lemma set_strip: "set (strip x) \<subseteq> set x"
proof
  fix c assume "c \<in> set (strip x)"
  then have "c \<in> set (dropWhile isspace (rev (dropWhile isspace x)))" by (simp add: strip_def)
  then have "c \<in> set (rev (dropWhile isspace x))" by (rule set_dropWhileD)
  then have "c \<in> set (dropWhile isspace x)" by simp
  then show "c \<in> set x" by (rule set_dropWhileD)
qed

lemma blank_lines_no_match:
  assumes "set cs \<subseteq> {c. c \<noteq> newline}"
  shows "ms [] (seqs [Chr newline, Star True space, Chr newline]) (MState p cs []) = []"
proof -
  have "one_char (chr_eq [] newline) (MState p cs []) = []"
    using assms by (cases cs) (auto simp: one_char_def chr_eq_def)
  then show ?thesis by (simp add: seqs_Cons)
qed

lemma clean_text_no_newline: "newline \<notin> set (clean_text t)"
proof -
  define t1 where "t1 = fold (\<lambda>pattern text. re_sub [IGNORECASE] pattern [] text) NOISE_PATTERNS t"
  define t2 where "t2 = re_sub [] (Plus True space) '' '' t1"
  define t3 where "t3 = re_sub [] (seqs [Chr newline, Star True space, Chr newline]) [newline] t2"
  define t4 where "t4 = re_sub [] (seqs [Chr CHR ''Q'', Star True space, Chr CHR ''.'', Star True space]) ''Q.'' t3"
  define t5 where "t5 = re_sub [] (Seq (lit ''Question'') (Plus True space)) ''Question '' t4"
  define t6 where "t6 = re_sub [] unwanted [] t5"
  have ct: "clean_text t = strip t6"
    by (simp add: clean_text_def Let_def t1_def t2_def t3_def t4_def t5_def t6_def)
  have "t2 = squeeze isspace '' '' t1" by (simp add: t2_def space_def re_sub_spaces)
  then have n2: "newline \<notin> set t2"
    using squeeze_members [of newline isspace "'' ''" t1] isspace_newline
    by (auto simp: newline_def)
  then have "set t2 \<subseteq> {c. c \<noteq> newline}" by auto
  then have "sub_from [] (seqs [Chr newline, Star True space, Chr newline]) [newline] False
               (MState None t2 []) = t2"
    by (rule sub_from_no_match [rotated]) (rule blank_lines_no_match)
  then have "t3 = t2" by (simp add: t3_def re_sub_sub_from start_def)
  with n2 have n3: "newline \<notin> set t3" by simp
  have "set t4 \<subseteq> set t3 \<union> set ''Q.''" unfolding t4_def by (rule re_sub_chars)
  with n3 have n4: "newline \<notin> set t4" by (auto simp: newline_def)
  have "set t5 \<subseteq> set t4 \<union> set ''Question ''" unfolding t5_def by (rule re_sub_chars)
  with n4 have n5: "newline \<notin> set t5" by (auto simp: newline_def)
  have "set t6 \<subseteq> set t5 \<union> set []" unfolding t6_def by (rule re_sub_chars)
  with n5 have "newline \<notin> set t6" by auto
  with set_strip [of t6] show ?thesis unfolding ct by blast
qed

lemma not_digit_Q: "\<not> isdigit CHR ''Q''" "\<not> isdigit CHR ''[''" "\<not> isdigit CHR ''P''" "\<not> isdigit CHR ''E''"
  by (simp_all add: isdigit_def ord_def)

lemma single_line_matches:
  assumes "newline \<notin> set t"
  shows "length (all_matches t) \<le> 1"
proof -
  let ?f = "\<lambda>p. finditer [MULTILINE, DOTALL] p t"
  have len: "length (all_matches t) =
      length (?f pattern_standard) + length (?f pattern_numbered) +
      length (?f pattern_bracketed) + length (?f pattern_problem)"
    by (simp add: all_matches_def PATTERNS_def)
  have A: "?f pattern_standard = [] \<or> hd t = CHR ''Q''"
    using standard_once(2) [OF assms] by blast
  have B: "?f pattern_numbered = [] \<or> isdigit (hd t)"
    using numbered_once(2) [OF assms] by blast
  have C: "?f pattern_bracketed = [] \<or> hd t = CHR ''[''"
    using bracketed_once(2) [OF assms] by blast
  have D: "?f pattern_problem = [] \<or> hd t = CHR ''P'' \<or> hd t = CHR ''E''"
    using problem_once(2) [OF assms] by blast
  have la: "length (?f pattern_standard) \<le> 1" by (rule standard_once(1) [OF assms])
  have lb: "length (?f pattern_numbered) \<le> 1" by (rule numbered_once(1) [OF assms])
  have lc: "length (?f pattern_bracketed) \<le> 1" by (rule bracketed_once(1) [OF assms])
  have ld: "length (?f pattern_problem) \<le> 1" by (rule problem_once(1) [OF assms])
  show ?thesis
  proof (cases "?f pattern_standard = []")
    case False
    with A have h: "hd t = CHR ''Q''" by simp
    with B C D not_digit_Q(1) have "?f pattern_numbered = []" "?f pattern_bracketed = []"
      "?f pattern_problem = []" by simp_all
    with la len show ?thesis by simp
  next
    case a: True
    show ?thesis
    proof (cases "?f pattern_numbered = []")
      case False
      with B have h: "isdigit (hd t)" by simp
      have "hd t \<noteq> CHR ''[''" "hd t \<noteq> CHR ''P''" "hd t \<noteq> CHR ''E''"
        using h not_digit_Q by auto
      with C D have "?f pattern_bracketed = []" "?f pattern_problem = []" by simp_all
      with a lb len show ?thesis by simp
    next
      case b: True
      show ?thesis
      proof (cases "?f pattern_bracketed = []")
        case False
        with C have h: "hd t = CHR ''[''" by simp
        with D have "?f pattern_problem = []" by simp
        with a b lc len show ?thesis by simp
      next
        case True
        with a b ld len show ?thesis by simp
      qed
    qed
  qed
qed

lemma extract_length:
  assumes "extract_with_confidence text = Inr qs"
  shows "length qs \<le> length (all_matches text)"
proof -
  from assms obtain st where st: "for_matches ([], {}) (all_matches text) = Inr st"
    and qs: "qs = sort_key question_id (fst st)"
    by (cases "for_matches ([], {}) (all_matches text)") (auto simp: extract_all_matches)
  from for_matches_length [OF st] qs show ?thesis by simp
qed

lemma pipeline_cases:
  assumes "pipeline t = Inr rs"
  obtains qs where "extract_with_confidence (clean_text t) = Inr qs" "rs = post_process_questions qs"
  using assms by (cases "extract_with_confidence (clean_text t)") (auto simp: pipeline_def)

lemma pipeline_at_most_one:
  assumes "pipeline t = Inr rs"
  shows "length rs \<le> 1"
proof -
  from assms obtain qs where qs: "extract_with_confidence (clean_text t) = Inr qs"
    "rs = post_process_questions qs" by (rule pipeline_cases)
  have "length rs \<le> length qs" unfolding qs(2) by (rule post_process_length)
  also have "\<dots> \<le> length (all_matches (clean_text t))" using qs(1) by (rule extract_length)
  also have "\<dots> \<le> 1" using clean_text_no_newline by (rule single_line_matches)
  finally show ?thesis .
qed

section \<open>The program on concrete texts\<close>

lemma ev_noise_clean:
  "clean_text ''Q.1 What is X? Here is the answer to the question: blah. I hope this helps!'' = ''Q.1 What is X?''"
  by code_simp

lemma ev_noise_extract:
  "extract_with_confidence ''Q.1 What is X?'' =
     Inr [\<lparr>question_id = 1, question_text = ''What is X?'', confidence = 1\<rparr>]"
  by code_simp

lemma ev_noise_post:
  "post_process_questions [\<lparr>question_id = 1, question_text = ''What is X?'', confidence = 1\<rparr>] =
     [\<lparr>dict_question_id = 1, dict_question = ''What is X?''\<rparr>]"
  by code_simp

lemma ev_boundary_clean:
  "clean_text ''Q1. First question text here Q2. Second question text here'' =
     ''Q1. First question text here Q2. Second question text here''"
  by code_simp

lemma ev_boundary_extract:
  "extract_with_confidence ''Q1. First question text here Q2. Second question text here'' =
     Inr [\<lparr>question_id = 1, question_text = ''First question text here Q2. Second question text here'',
           confidence = 1\<rparr>]"
  by code_simp

lemma ev_boundary_post:
  "post_process_questions
     [\<lparr>question_id = 1, question_text = ''First question text here Q2. Second question text here'',
       confidence = 1\<rparr>] =
     [\<lparr>dict_question_id = 1,
       dict_question = ''First question text here Q2. Second question text here.''\<rparr>]"
  by code_simp

lemma ev_numbered_clean: "clean_text ''1. What is X?'' = ''1. What is X?''"
  by code_simp

lemma ev_numbered_matches:
  "all_matches ''1. What is X?'' = [Match [''id'', ''text''] [(''text'', ''What is X?''), (''id'', ''1'')]]"
  by code_simp

lemma ev_numbered_confidence:
  "calculate_confidence ''What is X?''
     (Match [''id'', ''text''] [(''text'', ''What is X?''), (''id'', ''1'')]) = Inl IndexError"
  by code_simp

lemma ev_numbered_extract: "extract_with_confidence ''1. What is X?'' = Inl IndexError"
  by code_simp

lemma ev_bracket_matches:
  "all_matches (''[1] ab'' @ [newline] @ ''[1] What is the capital of France?'') =
     [Match [''marker'', ''id'', ''text''] [(''text'', ''ab''), (''id'', ''1'')],
      Match [''marker'', ''id'', ''text''] [(''text'', ''What is the capital of France?''), (''id'', ''1'')]]"
  by code_simp

lemma ev_bracket_extract:
  "extract_with_confidence (''[1] ab'' @ [newline] @ ''[1] What is the capital of France?'') =
     Inr [\<lparr>question_id = 1, question_text = ''What is the capital of France?'', confidence = 1\<rparr>]"
  by code_simp

lemma ev_two_extract:
  "extract_with_confidence (''Q2. Name two rivers.'' @ [newline] @ ''Q1. What is X?'') =
     Inr [\<lparr>question_id = 1, question_text = ''What is X?'', confidence = 1\<rparr>,
          \<lparr>question_id = 2, question_text = ''Name two rivers.'', confidence = 1\<rparr>]"
  by code_simp

section \<open>The properties stated by the specification\<close>

lemma pipeline_noise:
  "pipeline ''Q.1 What is X? Here is the answer to the question: blah. I hope this helps!'' =
     Inr [\<lparr>dict_question_id = 1, dict_question = ''What is X?''\<rparr>]"
  by (simp only: pipeline_def ev_noise_clean ev_noise_extract ev_noise_post sum.case)

lemma pipeline_boundary:
  "pipeline ''Q1. First question text here Q2. Second question text here'' =
     Inr [\<lparr>dict_question_id = 1,
           dict_question = ''First question text here Q2. Second question text here.''\<rparr>]"
  by (simp only: pipeline_def ev_boundary_clean ev_boundary_extract ev_boundary_post sum.case)

lemma pipeline_numbered: "pipeline ''1. What is X?'' = Inl IndexError"
  by (simp only: pipeline_def ev_numbered_clean ev_numbered_extract sum.case)

lemma calculate_confidence_formula:
  assumes "''marker'' \<in> set (m_names m)"
  shows "calculate_confidence text m =
     Inr (min 1 (1 * (if length text < 10 then 5 / 10 else if length text > 500 then 8 / 10 else 1)
                   * (if truthy (map_of (m_caps m) ''marker'') then 12 / 10 else 1)
                   * (if CHR ''?'' \<in> set text then 11 / 10 else 1)))"
  using assms by (simp add: calculate_confidence_def group_def Let_def min.commute)

lemma calculate_confidence_range:
  assumes "calculate_confidence text m = Inr c"
  shows "0 \<le> c \<and> c \<le> 1"
  using assms
  by (auto simp: calculate_confidence_def group_def Let_def min_def split: if_splits)

text \<open>
  C1 (as stated in the specification): the text
  \<^verbatim>\<open>Q1. First question text here Q2. Second question text here\<close> splits into two
  records, one for id 1 and one for id 2, with bounded texts that do not overlap.
  The program does not do this: all four patterns start a question only at the
  beginning of the text or after a line break, and this text has no line break, so
  the second marker stays inside the body of the first question. The pipeline returns
  a single record.
\<close>

theorem boundary_capture_counterexample:
  "pipeline ''Q1. First question text here Q2. Second question text here'' =
     Inr [\<lparr>dict_question_id = 1,
           dict_question = ''First question text here Q2. Second question text here.''\<rparr>]"
  by (rule pipeline_boundary)

text \<open>
  C1 (amended): for that text the cleaned text is the text itself, the matcher accepts
  one candidate, with id 1, whose body runs to the end of the text, and the pipeline
  returns exactly one record, with id 1 and the text
  \<^verbatim>\<open>First question text here Q2. Second question text here.\<close>
\<close>

theorem boundary_capture_single_record:
  "clean_text ''Q1. First question text here Q2. Second question text here'' =
     ''Q1. First question text here Q2. Second question text here'' \<and>
   map question_text (projr (extract_with_confidence
       ''Q1. First question text here Q2. Second question text here'')) =
     [''First question text here Q2. Second question text here''] \<and>
   length (projr (pipeline ''Q1. First question text here Q2. Second question text here'')) = 1 \<and>
   map dict_question_id (projr (pipeline
       ''Q1. First question text here Q2. Second question text here'')) = [1]"
  by (simp add: pipeline_boundary ev_boundary_clean ev_boundary_extract)

text \<open>
  C2: the output of \<^verbatim>\<open>_clean_text\<close> never contains a newline; hence each of the
  four extraction patterns matches the cleaned text at most once, and the pipeline,
  whenever it returns, returns at most one record.
\<close>

theorem cleaned_text_single_line:
  "newline \<notin> set (clean_text t) \<and>
   (\<forall>p \<in> set PATTERNS. length (finditer [MULTILINE, DOTALL] p (clean_text t)) \<le> 1) \<and>
   (\<forall>rs. pipeline t = Inr rs \<longrightarrow> length rs \<le> 1)"
proof (intro conjI ballI allI impI)
  show "newline \<notin> set (clean_text t)" by (rule clean_text_no_newline)
next
  fix p assume "p \<in> set PATTERNS"
  then consider "p = pattern_standard" | "p = pattern_numbered" | "p = pattern_bracketed"
    | "p = pattern_problem" by (auto simp: PATTERNS_def)
  then show "length (finditer [MULTILINE, DOTALL] p (clean_text t)) \<le> 1"
  proof cases
    case 1
    then show ?thesis using standard_once(1) [OF clean_text_no_newline] by simp
  next
    case 2
    then show ?thesis using numbered_once(1) [OF clean_text_no_newline] by simp
  next
    case 3
    then show ?thesis using bracketed_once(1) [OF clean_text_no_newline] by simp
  next
    case 4
    then show ?thesis using problem_once(1) [OF clean_text_no_newline] by simp
  qed
next
  fix rs assume "pipeline t = Inr rs"
  then show "length rs \<le> 1" by (rule pipeline_at_most_one)
qed

theorem cleaned_text_single_line_witness:
  "pattern_standard \<in> set PATTERNS \<and>
   length (finditer [MULTILINE, DOTALL] pattern_standard
     (clean_text ''Q.1 What is X? Here is the answer to the question: blah. I hope this helps!'')) \<le> 1 \<and>
   pipeline ''Q.1 What is X? Here is the answer to the question: blah. I hope this helps!'' =
     Inr [\<lparr>dict_question_id = 1, dict_question = ''What is X?''\<rparr>] \<and>
   length [\<lparr>dict_question_id = 1, dict_question = ''What is X?''\<rparr>] \<le> 1"
  using cleaned_text_single_line
    [of "''Q.1 What is X? Here is the answer to the question: blah. I hope this helps!''"]
    pipeline_noise
  by (simp add: PATTERNS_def)

text \<open>
  C3 (as stated in the specification): for every input the extraction completes and
  returns a list without raising; in particular no match of the bare-numeral pattern
  makes the whole extraction fail. The program fails here: the bare-numeral pattern
  defines no \<^verbatim>\<open>marker\<close> group, \<^verbatim>\<open>_calculate_confidence\<close> reads
  \<^verbatim>\<open>match.group('marker')\<close>, and on the text \<^verbatim>\<open>1. What is X?\<close> the extraction
  ends in \<^verbatim>\<open>IndexError\<close>.
\<close>

theorem numbered_question_raises:
  "clean_text ''1. What is X?'' = ''1. What is X?'' \<and>
   extract_with_confidence (clean_text ''1. What is X?'') = Inl IndexError \<and>
   pipeline ''1. What is X?'' = Inl IndexError"
  by (simp add: ev_numbered_clean ev_numbered_extract pipeline_numbered)

text \<open>
  C4: in the list the pipeline returns no two records share a \<^verbatim>\<open>question_id\<close> and
  the ids increase strictly along the list. This holds for every text given to
  \<^verbatim>\<open>_extract_with_confidence\<close>, cleaned or not.
\<close>

theorem ids_strictly_increasing:
  "(extract_with_confidence text = Inr qs \<longrightarrow>
      sorted_wrt (<) (map question_id qs) \<and>
      sorted_wrt (<) (map dict_question_id (post_process_questions qs))) \<and>
   (pipeline t = Inr rs \<longrightarrow>
      sorted_wrt (<) (map dict_question_id rs) \<and>
      distinct (map dict_question_id rs) \<and> sorted (map dict_question_id rs))"
proof (intro conjI impI)
  assume e: "extract_with_confidence text = Inr qs"
  then show s: "sorted_wrt (<) (map question_id qs)" by (rule extract_sorted)
  then show "sorted_wrt (<) (map dict_question_id (post_process_questions qs))"
    by (simp only: post_process_ids sorted_wrt_map_filter)
next
  assume "pipeline t = Inr rs"
  then obtain qs where qs: "extract_with_confidence (clean_text t) = Inr qs"
    "rs = post_process_questions qs" by (rule pipeline_cases)
  from extract_sorted [OF qs(1)] have "sorted_wrt (<) (map question_id qs)" .
  then have s: "sorted_wrt (<) (map dict_question_id rs)"
    unfolding qs(2) by (simp only: post_process_ids sorted_wrt_map_filter)
  then show "sorted_wrt (<) (map dict_question_id rs)" .
  from s show "distinct (map dict_question_id rs)" by (simp add: strict_sorted_iff)
  from s show "sorted (map dict_question_id rs)" by (simp add: strict_sorted_iff)
qed

theorem ids_strictly_increasing_witness:
  "extract_with_confidence (''Q2. Name two rivers.'' @ [newline] @ ''Q1. What is X?'') =
     Inr [\<lparr>question_id = 1, question_text = ''What is X?'', confidence = 1\<rparr>,
          \<lparr>question_id = 2, question_text = ''Name two rivers.'', confidence = 1\<rparr>] \<and>
   sorted_wrt (<) (map question_id
         [\<lparr>question_id = 1, question_text = ''What is X?'', confidence = 1\<rparr>,
          \<lparr>question_id = 2, question_text = ''Name two rivers.'', confidence = 1\<rparr>]) \<and>
   pipeline ''Q.1 What is X? Here is the answer to the question: blah. I hope this helps!'' =
     Inr [\<lparr>dict_question_id = 1, dict_question = ''What is X?''\<rparr>] \<and>
   sorted_wrt (<) (map dict_question_id [\<lparr>dict_question_id = 1, dict_question = ''What is X?''\<rparr>])"
  using ids_strictly_increasing
    [of "''Q2. Name two rivers.'' @ [newline] @ ''Q1. What is X?''"
        "[\<lparr>question_id = 1, question_text = ''What is X?'', confidence = 1\<rparr>,
          \<lparr>question_id = 2, question_text = ''Name two rivers.'', confidence = 1\<rparr>]"
        "''Q.1 What is X? Here is the answer to the question: blah. I hope this helps!''"
        "[\<lparr>dict_question_id = 1, dict_question = ''What is X?''\<rparr>]"]
    ev_two_extract pipeline_noise
  by simp

text \<open>
  C5: every record the pipeline returns has a non-empty question text whose last
  character is \<^verbatim>\<open>.\<close> or \<^verbatim>\<open>?\<close>; the same holds for whatever list of candidates
  \<^verbatim>\<open>_post_process_questions\<close> is given.
\<close>

theorem record_text_terminated:
  "(\<forall>r \<in> set (post_process_questions qs).
      dict_question r \<noteq> [] \<and>
      (last (dict_question r) = CHR ''.'' \<or> last (dict_question r) = CHR ''?'')) \<and>
   (pipeline t = Inr rs \<longrightarrow>
      (\<forall>r \<in> set rs. dict_question r \<noteq> [] \<and>
         (last (dict_question r) = CHR ''.'' \<or> last (dict_question r) = CHR ''?'')))"
proof -
  have gen: "dict_question r \<noteq> [] \<and>
      (last (dict_question r) = CHR ''.'' \<or> last (dict_question r) = CHR ''?'')"
    if "r \<in> set (post_process_questions qs')" for r qs'
  proof -
    from post_process_member [OF that] obtain q where
      q: "q \<in> set qs'" "dict_question_id r = question_id q"
         "dict_question r = final_clean (question_text q)" "dict_question r \<noteq> []"
      by (elim bexE conjE)
    from q(3,4) final_clean_end [of "question_text q"] show ?thesis by simp
  qed
  show ?thesis
  proof (rule conjI)
    show "\<forall>r \<in> set (post_process_questions qs).
      dict_question r \<noteq> [] \<and>
      (last (dict_question r) = CHR ''.'' \<or> last (dict_question r) = CHR ''?'')"
    proof (rule ballI)
      fix r assume "r \<in> set (post_process_questions qs)"
      then show "dict_question r \<noteq> [] \<and>
        (last (dict_question r) = CHR ''.'' \<or> last (dict_question r) = CHR ''?'')" by (rule gen)
    qed
  next
    show "pipeline t = Inr rs \<longrightarrow>
      (\<forall>r \<in> set rs. dict_question r \<noteq> [] \<and>
         (last (dict_question r) = CHR ''.'' \<or> last (dict_question r) = CHR ''?''))"
    proof (rule impI, rule ballI)
      fix r assume p: "pipeline t = Inr rs" and r: "r \<in> set rs"
      from p obtain qs' where "rs = post_process_questions qs'" by (rule pipeline_cases)
      with r have "r \<in> set (post_process_questions qs')" by simp
      then show "dict_question r \<noteq> [] \<and>
        (last (dict_question r) = CHR ''.'' \<or> last (dict_question r) = CHR ''?'')" by (rule gen)
    qed
  qed
qed

theorem record_text_terminated_witness:
  "\<lparr>dict_question_id = 1, dict_question = ''First question text here Q2. Second question text here.''\<rparr>
     \<in> set (post_process_questions
         [\<lparr>question_id = 1, question_text = ''First question text here Q2. Second question text here'',
           confidence = 1\<rparr>]) \<and>
   pipeline ''Q.1 What is X? Here is the answer to the question: blah. I hope this helps!'' =
     Inr [\<lparr>dict_question_id = 1, dict_question = ''What is X?''\<rparr>] \<and>
   \<lparr>dict_question_id = 1, dict_question = ''What is X?''\<rparr>
     \<in> set [\<lparr>dict_question_id = 1, dict_question = ''What is X?''\<rparr>] \<and>
   ''What is X?'' \<noteq> [] \<and> last ''What is X?'' = CHR ''?'' \<and>
   last ''First question text here Q2. Second question text here.'' = CHR ''.''"
  using record_text_terminated
    [of "[\<lparr>question_id = 1, question_text = ''First question text here Q2. Second question text here'',
           confidence = 1\<rparr>]"
        "''Q.1 What is X? Here is the answer to the question: blah. I hope this helps!''"
        "[\<lparr>dict_question_id = 1, dict_question = ''What is X?''\<rparr>]"]
    pipeline_noise ev_boundary_post
  by simp

text \<open>
  C6 (as stated in the specification): for every candidate text and every match,
  \<^verbatim>\<open>_calculate_confidence\<close> returns min(1.0, 1.0 * f_len * f_marker * f_qmark), with
  f_marker = 1.0 when the marker group is not non-empty. The program fails on the
  matches of the bare-numeral pattern, which has no \<^verbatim>\<open>marker\<close> group: for the match
  of \<^verbatim>\<open>1. What is X?\<close> the call raises \<^verbatim>\<open>IndexError\<close> where the claim gives 1.0.
  (For a match whose pattern defines the group the formula holds, see
  \<open>calculate_confidence_formula\<close>.)
\<close>

theorem confidence_numbered_raises:
  "finditer [MULTILINE, DOTALL] pattern_numbered ''1. What is X?'' =
     [Match [''id'', ''text''] [(''text'', ''What is X?''), (''id'', ''1'')]] \<and>
   calculate_confidence ''What is X?''
     (Match [''id'', ''text''] [(''text'', ''What is X?''), (''id'', ''1'')]) = Inl IndexError"
proof
  show "finditer [MULTILINE, DOTALL] pattern_numbered ''1. What is X?'' =
     [Match [''id'', ''text''] [(''text'', ''What is X?''), (''id'', ''1'')]]"
    by code_simp
  show "calculate_confidence ''What is X?''
     (Match [''id'', ''text''] [(''text'', ''What is X?''), (''id'', ''1'')]) = Inl IndexError"
    by (rule ev_numbered_confidence)
qed

text \<open>
  C7: a candidate enters the candidate set only with a score strictly above 0.5, and
  every record of the final output comes from such a candidate: each accepted
  candidate is what the loop body built from some match, with the score
  \<^verbatim>\<open>_calculate_confidence\<close> gave it, and that score exceeds 0.5.
\<close>

theorem confidence_floor:
  assumes "extract_with_confidence text = Inr qs"
  shows "(\<forall>q \<in> set qs. confidence q > 5 / 10 \<and> (\<exists>m \<in> set (all_matches text). accepts m q)) \<and>
         (\<forall>r \<in> set (post_process_questions qs). \<exists>q \<in> set qs.
            dict_question_id r = question_id q \<and>
            dict_question r = final_clean (question_text q) \<and> confidence q > 5 / 10)"
proof -
  from assms obtain st where st: "for_matches ([], {}) (all_matches text) = Inr st"
    and qs: "qs = sort_key question_id (fst st)"
    by (cases "for_matches ([], {}) (all_matches text)") (auto simp: extract_all_matches)
  have acc: "confidence q > 5 / 10 \<and> (\<exists>m \<in> set (all_matches text). accepts m q)"
    if "q \<in> set qs" for q
  proof -
    from that qs have "q \<in> set (fst st)" by simp
    from for_matches_origin [OF st this]
    have "\<exists>pre m post. all_matches text = pre @ m # post \<and> accepts m q \<and> question_id q \<notin> snd ([], {}) \<and>
        (\<forall>m' \<in> set pre. match_id m' = Inr (question_id q) \<longrightarrow> rejected m')" by simp
    then obtain pre m post where
      m: "all_matches text = pre @ m # post" "accepts m q" by (elim exE conjE)
    from m(1) have mem: "m \<in> set (all_matches text)" by simp
    from m(2) have "confidence q > 5 / 10" by (simp add: accepts_def)
    moreover from mem m(2) have "\<exists>m \<in> set (all_matches text). accepts m q" by (rule bexI [rotated])
    ultimately show ?thesis by (rule conjI)
  qed
  show ?thesis
  proof (rule conjI)
    show "\<forall>q \<in> set qs. confidence q > 5 / 10 \<and> (\<exists>m \<in> set (all_matches text). accepts m q)"
    proof (rule ballI)
      fix q assume "q \<in> set qs"
      then show "confidence q > 5 / 10 \<and> (\<exists>m \<in> set (all_matches text). accepts m q)"
        by (rule acc)
    qed
  next
    show "\<forall>r \<in> set (post_process_questions qs). \<exists>q \<in> set qs.
            dict_question_id r = question_id q \<and>
            dict_question r = final_clean (question_text q) \<and> confidence q > 5 / 10"
    proof (rule ballI)
      fix r assume "r \<in> set (post_process_questions qs)"
      from post_process_member [OF this] obtain q where
        q: "q \<in> set qs" "dict_question_id r = question_id q"
           "dict_question r = final_clean (question_text q)" "dict_question r \<noteq> []"
        by (elim bexE conjE)
      from acc [OF q(1)] have "confidence q > 5 / 10" by (rule conjunct1)
      with q(2,3) have "dict_question_id r = question_id q \<and>
            dict_question r = final_clean (question_text q) \<and> confidence q > 5 / 10" by simp
      with q(1) show "\<exists>q \<in> set qs.
            dict_question_id r = question_id q \<and>
            dict_question r = final_clean (question_text q) \<and> confidence q > 5 / 10"
        by (rule bexI [rotated])
    qed
  qed
qed

theorem confidence_floor_witness:
  "extract_with_confidence (''Q2. Name two rivers.'' @ [newline] @ ''Q1. What is X?'') =
     Inr [\<lparr>question_id = 1, question_text = ''What is X?'', confidence = 1\<rparr>,
          \<lparr>question_id = 2, question_text = ''Name two rivers.'', confidence = 1\<rparr>] \<and>
   confidence \<lparr>question_id = 1, question_text = ''What is X?'', confidence = 1\<rparr> > 5 / 10 \<and>
   confidence \<lparr>question_id = 2, question_text = ''Name two rivers.'', confidence = 1\<rparr> > 5 / 10"
  using confidence_floor [OF ev_two_extract] ev_two_extract
  by simp

text \<open>
  C8: for the text
  \<^verbatim>\<open>Q.1 What is X? Here is the answer to the question: blah. I hope this helps!\<close>
  the noise phrases are removed by \<^verbatim>\<open>_clean_text\<close>, before the patterns are tried, and
  the pipeline returns exactly one record, with id 1 and the text \<^verbatim>\<open>What is X?\<close>
\<close>

theorem noise_removal:
  "clean_text ''Q.1 What is X? Here is the answer to the question: blah. I hope this helps!'' =
     ''Q.1 What is X?'' \<and>
   pipeline ''Q.1 What is X? Here is the answer to the question: blah. I hope this helps!'' =
     Inr [\<lparr>dict_question_id = 1, dict_question = ''What is X?''\<rparr>]"
  using ev_noise_clean pipeline_noise by (rule conjI)

lemma ev_bracket_first:
  "match_id (Match [''marker'', ''id'', ''text''] [(''text'', ''ab''), (''id'', ''1'')]) = Inr 1 \<and>
   match_text (Match [''marker'', ''id'', ''text''] [(''text'', ''ab''), (''id'', ''1'')]) = Inr ''ab'' \<and>
   calculate_confidence ''ab''
     (Match [''marker'', ''id'', ''text''] [(''text'', ''ab''), (''id'', ''1'')]) = Inr (5 / 10)"
  by code_simp

lemma ev_bracket_second:
  "match_id (Match [''marker'', ''id'', ''text'']
       [(''text'', ''What is the capital of France?''), (''id'', ''1'')]) = Inr 1 \<and>
   match_text (Match [''marker'', ''id'', ''text'']
       [(''text'', ''What is the capital of France?''), (''id'', ''1'')]) =
     Inr ''What is the capital of France?'' \<and>
   calculate_confidence ''What is the capital of France?''
     (Match [''marker'', ''id'', ''text'']
       [(''text'', ''What is the capital of France?''), (''id'', ''1'')]) = Inr 1"
  by code_simp

lemma ev_bracket_finditer:
  "finditer [MULTILINE, DOTALL] pattern_bracketed
     (''[1] ab'' @ [newline] @ ''[1] What is the capital of France?'') =
     [Match [''marker'', ''id'', ''text''] [(''text'', ''ab''), (''id'', ''1'')],
      Match [''marker'', ''id'', ''text''] [(''text'', ''What is the capital of France?''), (''id'', ''1'')]]"
  by code_simp

text \<open>
  C9 (as stated in the specification): within one pattern's matches only the first
  occurrence of an id is kept as a candidate, and no later match of the same pattern
  with the same id is ever accepted, even when the first occurrence was discarded by
  the confidence threshold. The program marks an id as seen only when it accepts a
  candidate: in the two-line text \<^verbatim>\<open>[1] ab\<close>, \<^verbatim>\<open>[1] What is the capital of France?\<close>
  the bracketed pattern matches twice with id 1; the first match scores exactly 0.5
  and is discarded, and the second match is the accepted candidate.
\<close>

theorem later_match_accepted_counterexample:
  "finditer [MULTILINE, DOTALL] pattern_bracketed
     (''[1] ab'' @ [newline] @ ''[1] What is the capital of France?'') =
     [Match [''marker'', ''id'', ''text''] [(''text'', ''ab''), (''id'', ''1'')],
      Match [''marker'', ''id'', ''text''] [(''text'', ''What is the capital of France?''), (''id'', ''1'')]] \<and>
   match_id (Match [''marker'', ''id'', ''text''] [(''text'', ''ab''), (''id'', ''1'')]) = Inr 1 \<and>
   calculate_confidence ''ab''
     (Match [''marker'', ''id'', ''text''] [(''text'', ''ab''), (''id'', ''1'')]) = Inr (5 / 10) \<and>
   match_id (Match [''marker'', ''id'', ''text'']
       [(''text'', ''What is the capital of France?''), (''id'', ''1'')]) = Inr 1 \<and>
   extract_with_confidence (''[1] ab'' @ [newline] @ ''[1] What is the capital of France?'') =
     Inr [\<lparr>question_id = 1, question_text = ''What is the capital of France?'', confidence = 1\<rparr>]"
  using ev_bracket_finditer ev_bracket_first ev_bracket_second ev_bracket_extract
  by simp

text \<open>
  C9 (amended): for every input to \<^verbatim>\<open>_extract_with_confidence\<close> the accepted
  candidates have distinct ids, and a candidate is accepted exactly when it is built
  from a match whose score exceeds 0.5 and every earlier match with the same id, in
  pattern order and then document order, was discarded by the threshold. So a later
  match is never accepted once a match with its id has been accepted, and it is
  accepted when all earlier ones were discarded and its own score exceeds 0.5.
\<close>

theorem first_passing_match_accepted:
  assumes "extract_with_confidence text = Inr qs"
  shows "distinct (map question_id qs) \<and>
         (\<forall>q. q \<in> set qs \<longleftrightarrow>
            (\<exists>pre m post.
               all_matches text = pre @ m # post \<and> accepts m q \<and>
               (\<forall>m' \<in> set pre. match_id m' = Inr (question_id q) \<longrightarrow> rejected m')))"
proof (rule conjI)
  from extract_sorted [OF assms] show "distinct (map question_id qs)"
    by (simp add: strict_sorted_iff)
next
  from assms obtain st where st: "for_matches ([], {}) (all_matches text) = Inr st"
    and qs: "qs = sort_key question_id (fst st)"
    by (cases "for_matches ([], {}) (all_matches text)") (auto simp: extract_all_matches)
  show "\<forall>q. q \<in> set qs \<longleftrightarrow>
            (\<exists>pre m post.
               all_matches text = pre @ m # post \<and> accepts m q \<and>
               (\<forall>m' \<in> set pre. match_id m' = Inr (question_id q) \<longrightarrow> rejected m'))"
  proof (rule allI, rule iffI)
    fix q assume "q \<in> set qs"
    with qs have "q \<in> set (fst st)" by simp
    from for_matches_origin [OF st this]
    have "\<exists>pre m post. all_matches text = pre @ m # post \<and> accepts m q \<and>
        question_id q \<notin> snd ([], {}) \<and>
        (\<forall>m' \<in> set pre. match_id m' = Inr (question_id q) \<longrightarrow> rejected m')" by simp
    then obtain pre m post where
      "all_matches text = pre @ m # post \<and> accepts m q \<and>
        (\<forall>m' \<in> set pre. match_id m' = Inr (question_id q) \<longrightarrow> rejected m')"
      by (elim exE conjE) simp
    then show "\<exists>pre m post.
            all_matches text = pre @ m # post \<and> accepts m q \<and>
            (\<forall>m' \<in> set pre. match_id m' = Inr (question_id q) \<longrightarrow> rejected m')"
      by (intro exI)
  next
    fix q assume "\<exists>pre m post.
            all_matches text = pre @ m # post \<and> accepts m q \<and>
            (\<forall>m' \<in> set pre. match_id m' = Inr (question_id q) \<longrightarrow> rejected m')"
    then obtain pre m post where split: "all_matches text = pre @ m # post"
      and acc: "accepts m q"
      and earlier: "\<forall>m' \<in> set pre. match_id m' = Inr (question_id q) \<longrightarrow> rejected m'"
      by (elim exE conjE)
    from st split have run: "for_matches ([], {}) (pre @ m # post) = Inr st" by simp
    have "question_id q \<notin> snd (([], {}) :: QuestionMatch list \<times> int set)" by simp
    from for_matches_complete [OF run acc this earlier] have "q \<in> set (fst st)" .
    with qs show "q \<in> set qs" by simp
  qed
qed

theorem first_passing_match_accepted_witness:
  "extract_with_confidence (''[1] ab'' @ [newline] @ ''[1] What is the capital of France?'') =
     Inr [\<lparr>question_id = 1, question_text = ''What is the capital of France?'', confidence = 1\<rparr>] \<and>
   distinct (map question_id
     [\<lparr>question_id = 1, question_text = ''What is the capital of France?'', confidence = 1\<rparr>]) \<and>
   all_matches (''[1] ab'' @ [newline] @ ''[1] What is the capital of France?'') =
     [Match [''marker'', ''id'', ''text''] [(''text'', ''ab''), (''id'', ''1'')]] @
      Match [''marker'', ''id'', ''text''] [(''text'', ''What is the capital of France?''), (''id'', ''1'')]
      # [] \<and>
   accepts (Match [''marker'', ''id'', ''text'']
       [(''text'', ''What is the capital of France?''), (''id'', ''1'')])
     \<lparr>question_id = 1, question_text = ''What is the capital of France?'', confidence = 1\<rparr> \<and>
   match_id (Match [''marker'', ''id'', ''text''] [(''text'', ''ab''), (''id'', ''1'')]) = Inr 1 \<and>
   rejected (Match [''marker'', ''id'', ''text''] [(''text'', ''ab''), (''id'', ''1'')]) \<and>
   \<lparr>question_id = 1, question_text = ''What is the capital of France?'', confidence = 1\<rparr>
     \<in> set [\<lparr>question_id = 1, question_text = ''What is the capital of France?'', confidence = 1\<rparr>]"
proof -
  let ?m1 = "Match [''marker'', ''id'', ''text''] [(''text'', ''ab''), (''id'', ''1'')]"
  let ?m2 = "Match [''marker'', ''id'', ''text'']
       [(''text'', ''What is the capital of France?''), (''id'', ''1'')]"
  let ?q = "\<lparr>question_id = 1, question_text = ''What is the capital of France?'', confidence = 1\<rparr>"
  have r: "rejected ?m1"
    unfolding rejected_def using ev_bracket_first
    by (intro exI [of _ "''ab''"] exI [of _ "5 / 10"]) simp
  have a: "accepts ?m2 ?q"
    using ev_bracket_second by (simp add: accepts_def)
  have split: "all_matches (''[1] ab'' @ [newline] @ ''[1] What is the capital of France?'') =
     [?m1] @ ?m2 # []"
    using ev_bracket_matches by simp
  have earlier: "\<forall>m' \<in> set [?m1]. match_id m' = Inr (question_id ?q) \<longrightarrow> rejected m'"
    using r by simp
  note T = first_passing_match_accepted [OF ev_bracket_extract]
  from T have d: "distinct (map question_id [?q])" by (rule conjunct1)
  from T have "?q \<in> set [?q] \<longleftrightarrow>
      (\<exists>pre m post.
         all_matches (''[1] ab'' @ [newline] @ ''[1] What is the capital of France?'') = pre @ m # post \<and>
         accepts m ?q \<and>
         (\<forall>m' \<in> set pre. match_id m' = Inr (question_id ?q) \<longrightarrow> rejected m'))"
    by (elim conjE allE [of _ ?q])
  moreover have "\<exists>pre m post.
         all_matches (''[1] ab'' @ [newline] @ ''[1] What is the capital of France?'') = pre @ m # post \<and>
         accepts m ?q \<and>
         (\<forall>m' \<in> set pre. match_id m' = Inr (question_id ?q) \<longrightarrow> rejected m')"
    using split a earlier by (intro exI [of _ "[?m1]"] exI [of _ ?m2] exI [of _ "[]"] conjI)
  ultimately have mem: "?q \<in> set [?q]" by (rule iffD2)
  from ev_bracket_first have mid: "match_id ?m1 = Inr 1" by (rule conjunct1)
  from ev_bracket_extract d split a mid r mem show ?thesis by (intro conjI)
qed

text \<open>
  C10: \<^verbatim>\<open>_final_clean\<close> is idempotent: its output is already white-space-collapsed,
  trimmed, and empty or ended by \<^verbatim>\<open>.\<close> or \<^verbatim>\<open>?\<close>, so a second application changes
  nothing.
\<close>

theorem final_clean_idempotent: "final_clean (final_clean t) = final_clean t"
  by (rule final_clean_idem)

end
